theory Spec2Isabelle
  imports Main
begin

section \<open>Tokens and the token source\<close>

text \<open>
  \<^verbatim>\<open>Parser.py\<close> imports the enumeration \<^verbatim>\<open>Core\<close> under the name \<^verbatim>\<open>Token\<close>; these are
  the members the parser refers to.
\<close>

datatype Token =
    PROGRAM | BEGIN | END | INT_tok | ID | CONST_tok | COMMA | SEMICOLON | ASSIGN
  | IF | THEN | ELSE | ENDIF | WHILE | ENDWHILE | INPUT | OUTPUT
  | ADD | SUB | MULT | LPAREN | RPAREN | NEGATION | OR | EQUAL | LESS | LESSEQUAL
  | ERROR

text \<open>
  Modelled from the spec: the class \<^verbatim>\<open>Scanner\<close> is not part of the sources. The spec gives
  its contract: the kind of the current token, the name when the kind is identifier, the
  integer when the kind is constant, and a step to the next token; once the input is
  exhausted the current token is the end marker, which \<^verbatim>\<open>Program.parse\<close> expects to be
  \<^verbatim>\<open>Token.ERROR\<close>. The scanner is the list of the lexemes not yet consumed.
\<close>

datatype lexeme = Sym Token | Name string | Number int

fun currentToken :: "lexeme list \<Rightarrow> Token" where
  "currentToken [] = ERROR"
| "currentToken (Sym t # _) = t"
| "currentToken (Name _ # _) = ID"
| "currentToken (Number _ # _) = CONST_tok"

fun getID :: "lexeme list \<Rightarrow> string" where
  "getID (Name x # _) = x"
| "getID _ = []"

fun getCONST :: "lexeme list \<Rightarrow> int" where
  "getCONST (Number c # _) = c"
| "getCONST _ = 0"

definition nextToken :: "lexeme list \<Rightarrow> lexeme list" where
  "nextToken ts = tl ts"


section \<open>Values, errors and the parser object\<close>

type_synonym addr = nat

text \<open>
  The Python values that occur at run time: \<^verbatim>\<open>None\<close>, booleans, unbounded integers,
  strings, and the pair \<^verbatim>\<open>(node, tree)\<close> that \<^verbatim>\<open>Id.execute\<close> returns to an assignment.
\<close>

datatype pyval = NoneV | BoolV bool | IntV int | StrV string | PairV string "addr option"

text \<open>
  Every \<^verbatim>\<open>sys.exit\<close> of the source is one constructor, named after its message; the
  remaining constructors are the Python exceptions that the code can raise.
\<close>

datatype error =
    InvalidlyPlaced Token Token
  | DeclarationsFollowingEnd
  | BadStartToStatement Token
  | InvalidOperator
  | NotInstantiated string
  | DeclaredTwice string
  | NotDeclared string
  | InsufficientEntries
  | TypeError
  | IndexError
  | KeyError
  | AttributeError
  | ValueError
  | RecursionError

text \<open>
  Class \<^verbatim>\<open>scope_tree\<close>: a dictionary and the reference to the next scope. Frames are
  objects that several variables refer to, so they live in a store indexed by address.
\<close>

record scope_tree =
  dict :: "string \<rightharpoonup> pyval"
  child :: "addr option"

definition scope_tree_init :: scope_tree where
  "scope_tree_init = \<lparr>dict = Map.empty, child = None\<rparr>"

text \<open>
  Class \<^verbatim>\<open>Parser\<close>: its scanner, the root of the scope chain and the data queue,
  together with the store of frames, the next free address, and the lines printed so
  far. The field \<^verbatim>\<open>tree\<close> is passed separately.
\<close>

record parser =
  scanner :: "lexeme list"
  frames :: "addr \<Rightarrow> scope_tree"
  next_addr :: addr
  global_scope :: addr
  data :: "string list"
  printed :: "pyval list"

definition new_scope :: "parser \<Rightarrow> addr \<times> parser" where
  "new_scope p =
     (next_addr p,
      p\<lparr>frames := (frames p)(next_addr p := scope_tree_init), next_addr := Suc (next_addr p)\<rparr>)"

definition set_child :: "addr \<Rightarrow> addr option \<Rightarrow> parser \<Rightarrow> parser" where
  "set_child a c p = p\<lparr>frames := (frames p)(a := (frames p a)\<lparr>child := c\<rparr>)\<rparr>"

definition set_item :: "addr \<Rightarrow> string \<Rightarrow> pyval \<Rightarrow> parser \<Rightarrow> parser" where
  "set_item a var v p =
     p\<lparr>frames := (frames p)(a := (frames p a)\<lparr>dict := (dict (frames p a))(var \<mapsto> v)\<rparr>)\<rparr>"

definition token :: "parser \<Rightarrow> Token" where
  "token p = currentToken (scanner p)"

definition get_id :: "parser \<Rightarrow> string" where
  "get_id p = getID (scanner p)"

definition get_const :: "parser \<Rightarrow> int" where
  "get_const p = getCONST (scanner p)"

definition next_token :: "parser \<Rightarrow> parser" where
  "next_token p = p\<lparr>scanner := nextToken (scanner p)\<rparr>"

section \<open>The parse tree\<close>

text \<open>
  Each grammar class keeps a list \<^verbatim>\<open>nodes\<close> that mixes tokens, payloads (the name of an
  identifier, the value of a constant) and instances of other classes. \<^verbatim>\<open>Program\<close>,
  \<^verbatim>\<open>If\<close> and \<^verbatim>\<open>While\<close> also hold a frame (\<^verbatim>\<open>program_scope\<close>, \<^verbatim>\<open>local\<close>), created by
  their constructor.
\<close>

datatype cls =
    Program | DeclSeq | Decl | IdList | Id_cls | StmtSeq | Assign | If_cls | While
  | Input | Output | Expr | Term | Factor | Cond | Cmpr | Const

datatype node =
    Tok Token
  | Str string
  | Num int
  | Obj cls "node list" "addr option"

definition new_obj :: "cls \<Rightarrow> parser \<Rightarrow> node \<times> parser" where
  "new_obj c p =
     (if c = Program \<or> c = If_cls \<or> c = While
      then (case new_scope p of (a, p') \<Rightarrow> (Obj c [] (Some a), p'))
      else (Obj c [] None, p))"

fun is_Token :: "node \<Rightarrow> bool" where
  "is_Token (Tok _) = True"
| "is_Token _ = False"

fun is_cls :: "cls \<Rightarrow> node \<Rightarrow> bool" where
  "is_cls c (Obj c' _ _) = (c = c')"
| "is_cls c _ = False"

section \<open>Results\<close>

text \<open>
  A routine that always returns yields \<open>error + 'a\<close>. The recursive-descent parser and
  the executor are defined with a bound on the depth of calls: \<open>None\<close> means that the
  bound was reached, \<open>Some (Inl e)\<close> that the run was aborted with \<open>e\<close>, and
  \<open>Some (Inr x)\<close> that the routine returned \<open>x\<close>.
\<close>

fun and_then :: "error + 'a \<Rightarrow> ('a \<Rightarrow> error + 'b) \<Rightarrow> error + 'b" where
  "and_then (Inl e) f = Inl e"
| "and_then (Inr x) f = f x"

fun then_do :: "(error + 'a) option \<Rightarrow> ('a \<Rightarrow> (error + 'b) option) \<Rightarrow> (error + 'b) option" where
  "then_do None f = None"
| "then_do (Some (Inl e)) f = Some (Inl e)"
| "then_do (Some (Inr x)) f = f x"

definition returns :: "'a \<Rightarrow> (error + 'a) option" where
  "returns x = Some (Inr x)"

definition exits :: "error \<Rightarrow> (error + 'a) option" where
  "exits e = Some (Inl e)"

section \<open>Parser driver\<close>

definition token_validate :: "Token \<Rightarrow> parser \<Rightarrow> error + unit" where
  "token_validate expected p =
     (if token p \<noteq> expected then Inl (InvalidlyPlaced (token p) expected) else Inr ())"

definition token_assert ::
  "Token \<Rightarrow> node list \<Rightarrow> parser \<Rightarrow> (error + node list \<times> parser) option" where
  "token_assert expected nodes p =
     (case token_validate expected p of
        Inl e \<Rightarrow> exits e
      | Inr _ \<Rightarrow> returns (nodes @ [Tok expected], next_token p))"

text \<open>
  \<^verbatim>\<open>self.nodes.append(X()); self.nodes[-1].parse(parser)\<close>: construct an instance, append
  it and let it parse itself.
\<close>

definition append_parse ::
  "(node \<Rightarrow> parser \<Rightarrow> (error + node \<times> parser) option) \<Rightarrow> cls \<Rightarrow> node list \<Rightarrow> parser
     \<Rightarrow> (error + node list \<times> parser) option" where
  "append_parse prs c nodes p =
     (case new_obj c p of (x, p1) \<Rightarrow>
        then_do (prs x p1) (\<lambda>(x', p2). returns (nodes @ [x'], p2)))"

fun stmt_class :: "Token \<Rightarrow> cls option" where
  "stmt_class ID = Some Assign"
| "stmt_class INPUT = Some Input"
| "stmt_class OUTPUT = Some Output"
| "stmt_class IF = Some If_cls"
| "stmt_class WHILE = Some While"
| "stmt_class INT_tok = Some Decl"
| "stmt_class _ = None"

fun parse :: "nat \<Rightarrow> node \<Rightarrow> parser \<Rightarrow> (error + node \<times> parser) option"
and expr_paren_parse :: "nat \<Rightarrow> node list \<Rightarrow> parser \<Rightarrow> (error + node list \<times> parser) option"
and cond_paren_parse :: "nat \<Rightarrow> node list \<Rightarrow> parser \<Rightarrow> (error + node list \<times> parser) option"
where
  "parse 0 self p = None"
| "parse (Suc k) (Obj Program nodes slot) p =
     then_do (token_assert PROGRAM nodes p) (\<lambda>(nodes, p).
     then_do (append_parse (parse k) DeclSeq nodes p) (\<lambda>(nodes, p).
     then_do (token_assert BEGIN nodes p) (\<lambda>(nodes, p).
     then_do (append_parse (parse k) StmtSeq nodes p) (\<lambda>(nodes, p).
     then_do (token_assert END nodes p) (\<lambda>(nodes, p).
     if token p \<noteq> ERROR then exits DeclarationsFollowingEnd
     else returns (Obj Program nodes slot, p))))))"
| "parse (Suc k) (Obj DeclSeq nodes slot) p =
     then_do (append_parse (parse k) Decl nodes p) (\<lambda>(nodes, p).
     if token p \<noteq> BEGIN
     then then_do (append_parse (parse k) DeclSeq nodes p) (\<lambda>(nodes, p).
          returns (Obj DeclSeq nodes slot, p))
     else returns (Obj DeclSeq nodes slot, p))"
| "parse (Suc k) (Obj Decl nodes slot) p =
     then_do (token_assert INT_tok nodes p) (\<lambda>(nodes, p).
     then_do (append_parse (parse k) IdList nodes p) (\<lambda>(nodes, p).
     then_do (token_assert SEMICOLON nodes p) (\<lambda>(nodes, p).
     returns (Obj Decl nodes slot, p))))"
| "parse (Suc k) (Obj IdList nodes slot) p =
     then_do (append_parse (parse k) Id_cls nodes p) (\<lambda>(nodes, p).
     if token p = COMMA
     then then_do (token_assert COMMA nodes p) (\<lambda>(nodes, p).
          then_do (append_parse (parse k) IdList nodes p) (\<lambda>(nodes, p).
          returns (Obj IdList nodes slot, p)))
     else returns (Obj IdList nodes slot, p))"
| "parse (Suc k) (Obj Id_cls nodes slot) p =
     (case token_validate ID p of
        Inl e \<Rightarrow> exits e
      | Inr _ \<Rightarrow> returns (Obj Id_cls (nodes @ [Tok ID] @ [Str (get_id p)]) slot, next_token p))"
| "parse (Suc k) (Obj StmtSeq nodes slot) p =
     (case stmt_class (token p) of
        None \<Rightarrow> exits (BadStartToStatement (token p))
      | Some c \<Rightarrow>
          then_do (append_parse (parse k) c nodes p) (\<lambda>(nodes, p).
          if \<not> token p = END \<and> \<not> token p = ENDIF \<and> \<not> token p = ENDWHILE \<and> \<not> token p = ELSE
          then then_do (append_parse (parse k) StmtSeq nodes p) (\<lambda>(nodes, p).
               returns (Obj StmtSeq nodes slot, p))
          else returns (Obj StmtSeq nodes slot, p)))"
| "parse (Suc k) (Obj Assign nodes slot) p =
     then_do (append_parse (parse k) Id_cls nodes p) (\<lambda>(nodes, p).
     then_do (token_assert ASSIGN nodes p) (\<lambda>(nodes, p).
     then_do (append_parse (parse k) Expr nodes p) (\<lambda>(nodes, p).
     then_do (token_assert SEMICOLON nodes p) (\<lambda>(nodes, p).
     returns (Obj Assign nodes slot, p)))))"
| "parse (Suc k) (Obj If_cls nodes slot) p =
     then_do (token_assert IF nodes p) (\<lambda>(nodes, p).
     then_do (append_parse (parse k) Cond nodes p) (\<lambda>(nodes, p).
     then_do (token_assert THEN nodes p) (\<lambda>(nodes, p).
     then_do (append_parse (parse k) StmtSeq nodes p) (\<lambda>(nodes, p).
     then_do (if token p = ELSE
              then then_do (token_assert ELSE nodes p) (\<lambda>(nodes, p).
                   append_parse (parse k) StmtSeq nodes p)
              else returns (nodes, p)) (\<lambda>(nodes, p).
     then_do (token_assert ENDIF nodes p) (\<lambda>(nodes, p).
     returns (Obj If_cls nodes slot, p)))))))"
| "parse (Suc k) (Obj While nodes slot) p =
     then_do (token_assert WHILE nodes p) (\<lambda>(nodes, p).
     then_do (append_parse (parse k) Cond nodes p) (\<lambda>(nodes, p).
     then_do (token_assert BEGIN nodes p) (\<lambda>(nodes, p).
     then_do (append_parse (parse k) StmtSeq nodes p) (\<lambda>(nodes, p).
     then_do (token_assert ENDWHILE nodes p) (\<lambda>(nodes, p).
     returns (Obj While nodes slot, p))))))"
| "parse (Suc k) (Obj Input nodes slot) p =
     then_do (token_assert INPUT nodes p) (\<lambda>(nodes, p).
     then_do (append_parse (parse k) Id_cls nodes p) (\<lambda>(nodes, p).
     then_do (token_assert SEMICOLON nodes p) (\<lambda>(nodes, p).
     returns (Obj Input nodes slot, p))))"
| "parse (Suc k) (Obj Output nodes slot) p =
     then_do (token_assert OUTPUT nodes p) (\<lambda>(nodes, p).
     then_do (append_parse (parse k) Expr nodes p) (\<lambda>(nodes, p).
     then_do (token_assert SEMICOLON nodes p) (\<lambda>(nodes, p).
     returns (Obj Output nodes slot, p))))"
| "parse (Suc k) (Obj Expr nodes slot) p =
     then_do (append_parse (parse k) Term nodes p) (\<lambda>(nodes, p).
     if token p = ADD
     then then_do (token_assert ADD nodes p) (\<lambda>(nodes, p).
          then_do (append_parse (parse k) Expr nodes p) (\<lambda>(nodes, p).
          returns (Obj Expr nodes slot, p)))
     else if token p = SUB
     then then_do (token_assert SUB nodes p) (\<lambda>(nodes, p).
          then_do (append_parse (parse k) Expr nodes p) (\<lambda>(nodes, p).
          returns (Obj Expr nodes slot, p)))
     else returns (Obj Expr nodes slot, p))"
| "parse (Suc k) (Obj Term nodes slot) p =
     then_do (append_parse (parse k) Factor nodes p) (\<lambda>(nodes, p).
     if token p = MULT
     then then_do (token_assert MULT nodes p) (\<lambda>(nodes, p).
          then_do (append_parse (parse k) Term nodes p) (\<lambda>(nodes, p).
          returns (Obj Term nodes slot, p)))
     else returns (Obj Term nodes slot, p))"
| "parse (Suc k) (Obj Factor nodes slot) p =
     (if token p = ID
      then then_do (append_parse (parse k) Id_cls nodes p) (\<lambda>(nodes, p).
           returns (Obj Factor nodes slot, p))
      else if token p = CONST_tok
      then then_do (append_parse (parse k) Const nodes p) (\<lambda>(nodes, p).
           returns (Obj Factor nodes slot, p))
      else if token p = LPAREN
      then then_do (expr_paren_parse k nodes p) (\<lambda>(nodes, p).
           returns (Obj Factor nodes slot, p))
      else exits InvalidOperator)"
| "parse (Suc k) (Obj Cond nodes slot) p =
     (if token p = NEGATION
      then then_do (token_assert NEGATION nodes p) (\<lambda>(nodes, p).
           then_do (cond_paren_parse k nodes p) (\<lambda>(nodes, p).
           returns (Obj Cond nodes slot, p)))
      else then_do (append_parse (parse k) Cmpr nodes p) (\<lambda>(nodes, p).
           if token p = OR
           then then_do (token_assert OR nodes p) (\<lambda>(nodes, p).
                then_do (append_parse (parse k) Cond nodes p) (\<lambda>(nodes, p).
                returns (Obj Cond nodes slot, p)))
           else returns (Obj Cond nodes slot, p)))"
| "parse (Suc k) (Obj Cmpr nodes slot) p =
     then_do (append_parse (parse k) Expr nodes p) (\<lambda>(nodes, p).
     then_do (if token p = EQUAL then token_assert EQUAL nodes p
              else if token p = LESS then token_assert LESS nodes p
              else if token p = LESSEQUAL then token_assert LESSEQUAL nodes p
              else returns (nodes, p)) (\<lambda>(nodes, p).
     then_do (append_parse (parse k) Expr nodes p) (\<lambda>(nodes, p).
     returns (Obj Cmpr nodes slot, p))))"
| "parse (Suc k) (Obj Const nodes slot) p =
     (case token_validate CONST_tok p of
        Inl e \<Rightarrow> exits e
      | Inr _ \<Rightarrow> returns (Obj Const (nodes @ [Num (get_const p)]) slot, next_token p))"
| "parse (Suc k) (Tok t) p = exits AttributeError"
| "parse (Suc k) (Str s) p = exits AttributeError"
| "parse (Suc k) (Num n) p = exits AttributeError"
| "expr_paren_parse 0 nodes p = None"
| "expr_paren_parse (Suc k) nodes p =
     then_do (token_assert LPAREN nodes p) (\<lambda>(nodes, p).
     then_do (append_parse (parse k) Expr nodes p) (\<lambda>(nodes, p).
     then_do (if token p = LPAREN then expr_paren_parse k nodes p
              else returns (nodes, p)) (\<lambda>(nodes, p).
     token_assert RPAREN nodes p)))"
| "cond_paren_parse 0 nodes p = None"
| "cond_paren_parse (Suc k) nodes p =
     then_do (token_assert LPAREN nodes p) (\<lambda>(nodes, p).
     then_do (append_parse (parse k) Cond nodes p) (\<lambda>(nodes, p).
     then_do (if token p = LPAREN then cond_paren_parse k nodes p
              else returns (nodes, p)) (\<lambda>(nodes, p).
     token_assert RPAREN nodes p)))"


text \<open>
  \<^verbatim>\<open>Parser.__init__\<close>: the scanner, an empty \<^verbatim>\<open>Program\<close> instance and the global scope.
\<close>

definition Parser_init :: "lexeme list \<Rightarrow> node \<times> parser" where
  "Parser_init f =
     (case new_obj Program
             \<lparr>scanner = f, frames = (\<lambda>_. scope_tree_init), next_addr = 0, global_scope = 0,
              data = [], printed = []\<rparr> of (tree, p) \<Rightarrow>
        (case new_scope p of (g, p) \<Rightarrow> (tree, p\<lparr>global_scope := g\<rparr>)))"

section \<open>Scope chain\<close>

text \<open>
  \<^verbatim>\<open>Parser.dfs_scope\<close> follows the \<^verbatim>\<open>child\<close> references. On a chain that runs in a cycle the
  recursion would not end, hence the outer option: \<open>None\<close> is "does not return", and
  \<open>Some r\<close> is the returned reference \<open>r\<close> (Python's \<^verbatim>\<open>None\<close> or a frame).
\<close>

partial_function (option) dfs_scope :: "(addr \<Rightarrow> scope_tree) \<Rightarrow> addr \<Rightarrow> string \<Rightarrow> addr option option" where
  "dfs_scope fr tree var =
     Option.bind (case child (fr tree) of None \<Rightarrow> Some None | Some c \<Rightarrow> dfs_scope fr c var) (\<lambda>sub.
       if (case sub of None \<Rightarrow> False | Some s \<Rightarrow> dict (fr s) var \<noteq> None) then Some sub
       else if dict (fr tree) var \<noteq> None then Some (Some tree)
       else Some None)"

section \<open>Semantic checks\<close>

text \<open>
  The labels passed as \<^verbatim>\<open>parent\<close> and \<^verbatim>\<open>caller\<close>: Python's \<^verbatim>\<open>None\<close> and the strings
  \<^verbatim>\<open>'get'\<close>, \<^verbatim>\<open>'declare'\<close>, \<^verbatim>\<open>'assign'\<close>, \<^verbatim>\<open>'call'\<close> and \<^verbatim>\<open>'expr'\<close>.
\<close>

datatype tag = T_None | T_get | T_declare | T_assign | T_call | T_expr

fun truthy :: "pyval \<Rightarrow> bool" where
  "truthy NoneV = False"
| "truthy (BoolV b) = b"
| "truthy (IntV i) = (i \<noteq> 0)"
| "truthy (StrV s) = (s \<noteq> [])"
| "truthy (PairV _ _) = True"

text \<open>The loop \<^verbatim>\<open>for node in self.nodes\<close>, left at the first \<^verbatim>\<open>sys.exit\<close>.\<close>

fun for_nodes :: "(node \<Rightarrow> 's \<Rightarrow> error + 's) \<Rightarrow> node list \<Rightarrow> 's \<Rightarrow> error + 's" where
  "for_nodes body [] s = Inr s"
| "for_nodes body (n # ns) s = and_then (body n s) (for_nodes body ns)"

lemma for_nodes_cong [fundef_cong]:
  assumes "ns = ns'" and "s = s'"
    and "\<And>n t. n \<in> set ns' \<Longrightarrow> body n t = body' n t"
  shows "for_nodes body ns s = for_nodes body' ns' s'"
  unfolding assms(1,2) using assms(3)
proof (induction ns' arbitrary: s')
  case Nil
  show ?case by simp
next
  case (Cons n ns)
  show ?case
  proof (cases "body' n s'")
    case (Inl e)
    then show ?thesis using Cons.prems [of n s'] by simp
  next
    case (Inr t)
    then show ?thesis using Cons.prems [of n s'] Cons.IH [of t] Cons.prems by simp
  qed
qed

text \<open>The body of the loop of \<^verbatim>\<open>Id.semantics\<close> for the name \<open>var\<close> stored in the node.\<close>

definition Id_semantics_name :: "string \<Rightarrow> tag \<Rightarrow> addr \<Rightarrow> parser \<Rightarrow> error + parser" where
  "Id_semantics_name var parent scope p =
     (case dfs_scope (frames p) (global_scope p) var of
        None \<Rightarrow> Inl RecursionError
      | Some tree \<Rightarrow>
          if parent = T_get then
            (case tree of
               None \<Rightarrow> Inl (NotInstantiated var)
             | Some t \<Rightarrow>
                 (case dict (frames p t) var of
                    None \<Rightarrow> Inl KeyError
                  | Some v \<Rightarrow> if \<not> truthy v then Inl (NotInstantiated var) else Inr p))
          else if parent = T_declare then
            (if dict (frames p scope) var = None then Inr (set_item scope var (BoolV False) p)
             else Inl (DeclaredTwice var))
          else if parent = T_assign then
            (case tree of
               None \<Rightarrow> Inl (NotDeclared var)
             | Some t \<Rightarrow> Inr (set_item t var (BoolV True) p))
          else Inr p)"

text \<open>
  The method \<^verbatim>\<open>semantics\<close> of every class. \<^verbatim>\<open>Program.semantics\<close> rebinds its argument
  \<^verbatim>\<open>scope\<close> to \<^verbatim>\<open>parser.global_scope\<close> before using it; every other call passes a frame.
\<close>

fun semantics :: "node \<Rightarrow> tag \<Rightarrow> addr \<Rightarrow> parser \<Rightarrow> error + parser" where
  "semantics (Obj Program nodes slot) parent scope p =
     (case slot of
        None \<Rightarrow> Inl AttributeError
      | Some program_scope \<Rightarrow>
          and_then
            (for_nodes (\<lambda>node (scope, p).
               let scope' = (if node = Tok BEGIN then program_scope else scope);
                   p' = (if node = Tok BEGIN
                         then set_child (global_scope p) (Some program_scope) p else p)
               in if \<not> is_Token node
                  then and_then (semantics node T_None scope' p') (\<lambda>p. Inr (scope', p))
                  else Inr (scope', p'))
               nodes (global_scope p, p))
            (\<lambda>(scope, p). Inr p))"
| "semantics (Obj DeclSeq nodes slot) parent scope p =
     for_nodes (\<lambda>node p. if \<not> is_Token node then semantics node parent scope p else Inr p) nodes p"
| "semantics (Obj Decl nodes slot) parent scope p =
     for_nodes (\<lambda>node p. if is_cls IdList node then semantics node T_declare scope p else Inr p) nodes p"
| "semantics (Obj IdList nodes slot) parent scope p =
     for_nodes (\<lambda>node p. if \<not> is_Token node then semantics node parent scope p else Inr p) nodes p"
| "semantics (Obj Id_cls nodes slot) parent scope p =
     for_nodes (\<lambda>node p.
        if \<not> is_Token node
        then (case node of Str var \<Rightarrow> Id_semantics_name var parent scope p | _ \<Rightarrow> Inl TypeError)
        else Inr p) nodes p"
| "semantics (Obj StmtSeq nodes slot) parent scope p =
     for_nodes (\<lambda>node p. semantics node parent scope p) nodes p"
| "semantics (Obj Assign nodes slot) parent scope p =
     for_nodes (\<lambda>node p. if \<not> is_Token node then semantics node T_assign scope p else Inr p) nodes p"
| "semantics (Obj If_cls nodes slot) parent scope p =
     (case slot of
        None \<Rightarrow> Inl AttributeError
      | Some local \<Rightarrow>
          for_nodes (\<lambda>node p.
             if \<not> is_Token node then semantics node parent local p
             else if node = Tok ENDIF then Inr (set_child scope None p)
             else Inr p) nodes (set_child scope (Some local) p))"
| "semantics (Obj While nodes slot) parent scope p =
     (case slot of
        None \<Rightarrow> Inl AttributeError
      | Some local \<Rightarrow>
          for_nodes (\<lambda>node p.
             if \<not> is_Token node then semantics node parent local p
             else if node = Tok ENDWHILE then Inr (set_child scope None p)
             else Inr p) nodes (set_child scope (Some local) p))"
| "semantics (Obj Input nodes slot) parent scope p =
     for_nodes (\<lambda>node p. if is_cls Id_cls node then semantics node T_assign scope p else Inr p) nodes p"
| "semantics (Obj Output nodes slot) parent scope p =
     for_nodes (\<lambda>node p. if \<not> is_Token node then semantics node T_call scope p else Inr p) nodes p"
| "semantics (Obj Expr nodes slot) parent scope p =
     for_nodes (\<lambda>node p. if \<not> is_Token node then semantics node parent scope p else Inr p) nodes p"
| "semantics (Obj Term nodes slot) parent scope p =
     for_nodes (\<lambda>node p. if \<not> is_Token node then semantics node parent scope p else Inr p) nodes p"
| "semantics (Obj Factor nodes slot) parent scope p =
     for_nodes (\<lambda>node p. if \<not> is_Token node then semantics node parent scope p else Inr p) nodes p"
| "semantics (Obj Cond nodes slot) parent scope p =
     for_nodes (\<lambda>node p. if \<not> is_Token node then semantics node parent scope p else Inr p) nodes p"
| "semantics (Obj Cmpr nodes slot) parent scope p =
     for_nodes (\<lambda>node p. if \<not> is_Token node then semantics node parent scope p else Inr p) nodes p"
| "semantics (Obj Const nodes slot) parent scope p = Inr p"
| "semantics (Tok t) parent scope p = Inl AttributeError"
| "semantics (Str s) parent scope p = Inl AttributeError"
| "semantics (Num n) parent scope p = Inl AttributeError"


section \<open>Python operators on the values of a run\<close>

text \<open>
  Integers are unbounded; a boolean counts as 0 or 1 in arithmetic. On two strings \<^verbatim>\<open>+\<close>
  concatenates and the comparisons are lexicographic; \<^verbatim>\<open>*\<close> repeats a string; every other
  mixture of strings, \<^verbatim>\<open>None\<close> and numbers raises \<^verbatim>\<open>TypeError\<close>, except under \<^verbatim>\<open>==\<close>.
  The pair returned to an assignment is unpacked at once and never reaches an operator.
\<close>

fun as_int :: "pyval \<Rightarrow> int option" where
  "as_int (IntV i) = Some i"
| "as_int (BoolV b) = Some (if b then 1 else 0)"
| "as_int _ = None"

fun str_lt :: "string \<Rightarrow> string \<Rightarrow> bool" where
  "str_lt [] [] = False"
| "str_lt [] (y # ys) = True"
| "str_lt (x # xs) [] = False"
| "str_lt (x # xs) (y # ys) = ((of_char x :: nat) < of_char y \<or> (x = y \<and> str_lt xs ys))"

fun py_add :: "pyval \<Rightarrow> pyval \<Rightarrow> error + pyval" where
  "py_add (StrV s) (StrV t) = Inr (StrV (s @ t))"
| "py_add a b =
     (case (as_int a, as_int b) of (Some x, Some y) \<Rightarrow> Inr (IntV (x + y)) | _ \<Rightarrow> Inl TypeError)"

fun py_sub :: "pyval \<Rightarrow> pyval \<Rightarrow> error + pyval" where
  "py_sub a b =
     (case (as_int a, as_int b) of (Some x, Some y) \<Rightarrow> Inr (IntV (x - y)) | _ \<Rightarrow> Inl TypeError)"

fun py_mul :: "pyval \<Rightarrow> pyval \<Rightarrow> error + pyval" where
  "py_mul (StrV s) b =
     (case as_int b of Some n \<Rightarrow> Inr (StrV (concat (replicate (nat n) s))) | None \<Rightarrow> Inl TypeError)"
| "py_mul a (StrV s) =
     (case as_int a of Some n \<Rightarrow> Inr (StrV (concat (replicate (nat n) s))) | None \<Rightarrow> Inl TypeError)"
| "py_mul a b =
     (case (as_int a, as_int b) of (Some x, Some y) \<Rightarrow> Inr (IntV (x * y)) | _ \<Rightarrow> Inl TypeError)"

fun py_lt :: "pyval \<Rightarrow> pyval \<Rightarrow> error + pyval" where
  "py_lt (StrV s) (StrV t) = Inr (BoolV (str_lt s t))"
| "py_lt a b =
     (case (as_int a, as_int b) of (Some x, Some y) \<Rightarrow> Inr (BoolV (x < y)) | _ \<Rightarrow> Inl TypeError)"

fun py_le :: "pyval \<Rightarrow> pyval \<Rightarrow> error + pyval" where
  "py_le (StrV s) (StrV t) = Inr (BoolV (str_lt s t \<or> s = t))"
| "py_le a b =
     (case (as_int a, as_int b) of (Some x, Some y) \<Rightarrow> Inr (BoolV (x \<le> y)) | _ \<Rightarrow> Inl TypeError)"

fun py_eq :: "pyval \<Rightarrow> pyval \<Rightarrow> pyval" where
  "py_eq a b =
     (case (as_int a, as_int b) of (Some x, Some y) \<Rightarrow> BoolV (x = y) | _ \<Rightarrow> BoolV (a = b))"

fun py_or :: "pyval \<Rightarrow> pyval \<Rightarrow> error + pyval" where
  "py_or (BoolV a) (BoolV b) = Inr (BoolV (a \<or> b))"
| "py_or a b =
     (case (as_int a, as_int b) of (Some x, Some y) \<Rightarrow> Inr (IntV (or x y)) | _ \<Rightarrow> Inl TypeError)"

section \<open>Execution\<close>

fun for_nodes_r :: "(node \<Rightarrow> 's \<Rightarrow> (error + 's) option) \<Rightarrow> node list \<Rightarrow> 's \<Rightarrow> (error + 's) option" where
  "for_nodes_r body [] s = Some (Inr s)"
| "for_nodes_r body (n # ns) s = then_do (body n s) (for_nodes_r body ns)"

text \<open>\<^verbatim>\<open>self.nodes[i]\<close>, which raises \<^verbatim>\<open>IndexError\<close> past the end of the list.\<close>

definition item :: "node list \<Rightarrow> nat \<Rightarrow> (error + node) option" where
  "item nodes i = (if i < length nodes then returns (nodes ! i) else exits IndexError)"

definition certainly :: "error + 'a \<Rightarrow> (error + 'a) option" where
  "certainly r = Some r"

text \<open>A call whose returned value is not used.\<close>

definition discard :: "(error + pyval \<times> parser) option \<Rightarrow> (error + parser) option" where
  "discard r = then_do r (\<lambda>(_, p). returns p)"

text \<open>
  \<^verbatim>\<open>Id.execute\<close>: the loop over \<^verbatim>\<open>self.nodes\<close> returns from inside for the labels
  \<^verbatim>\<open>'get'\<close> and \<^verbatim>\<open>'assign'\<close>, and runs to its end, returning \<^verbatim>\<open>None\<close>, otherwise.
\<close>

fun Id_execute :: "node list \<Rightarrow> tag \<Rightarrow> addr \<Rightarrow> parser \<Rightarrow> error + pyval \<times> parser" where
  "Id_execute [] caller local p = Inr (NoneV, p)"
| "Id_execute (node # rest) caller local p =
     (if \<not> is_Token node then
        (case node of
           Str var \<Rightarrow>
             (case dfs_scope (frames p) (global_scope p) var of
                None \<Rightarrow> Inl RecursionError
              | Some tree \<Rightarrow>
                  if caller = T_get then
                    (case tree of
                       None \<Rightarrow> Inl (NotInstantiated var)
                     | Some t \<Rightarrow>
                         (case dict (frames p t) var of
                            None \<Rightarrow> Inl KeyError
                          | Some NoneV \<Rightarrow> Inl (NotInstantiated var)
                          | Some v \<Rightarrow> Inr (v, p)))
                  else if caller = T_declare then
                    (if dict (frames p local) var = None
                     then Id_execute rest caller local (set_item local var NoneV p)
                     else Inl (DeclaredTwice var))
                  else if caller = T_assign then
                    (case tree of
                       None \<Rightarrow> Inl (NotDeclared var)
                     | Some t \<Rightarrow> Inr (PairV var (Some t), p))
                  else Id_execute rest caller local p)
         | _ \<Rightarrow> Inl TypeError)
      else Id_execute rest caller local p)"

text \<open>
  The method \<^verbatim>\<open>execute\<close> of every class, and the \<^verbatim>\<open>while\<close> loop of \<^verbatim>\<open>While.execute\<close>.
  The first argument bounds the depth of calls and the number of iterations. The frame
  that \<^verbatim>\<open>Program\<close>, \<^verbatim>\<open>If\<close> and \<^verbatim>\<open>While\<close> create on entry replaces the one held by the
  instance; only this call uses it.
\<close>

fun execute :: "nat \<Rightarrow> node \<Rightarrow> tag \<Rightarrow> addr \<Rightarrow> parser \<Rightarrow> (error + pyval \<times> parser) option"
and while_loop :: "nat \<Rightarrow> node \<Rightarrow> node \<Rightarrow> tag \<Rightarrow> addr \<Rightarrow> addr \<Rightarrow> parser \<Rightarrow> (error + parser) option"
where
  "execute 0 self caller local p = None"
| "execute (Suc k) (Obj Program nodes slot) caller scope p =
     (case new_scope p of (program_scope, p) \<Rightarrow>
        then_do
          (for_nodes_r (\<lambda>node (scope, p).
             let scope' = (if node = Tok BEGIN then program_scope else scope);
                 p' = (if node = Tok BEGIN
                       then set_child (global_scope p) (Some program_scope) p else p)
             in if \<not> is_Token node
                then then_do (execute k node caller scope' p') (\<lambda>(_, p). returns (scope', p))
                else returns (scope', p'))
             nodes (global_scope p, p))
          (\<lambda>(scope, p). returns (NoneV, p)))"
| "execute (Suc k) (Obj DeclSeq nodes slot) caller local p =
     then_do
       (for_nodes_r (\<lambda>node p.
          if \<not> is_Token node then discard (execute k node caller local p) else returns p) nodes p)
       (\<lambda>p. returns (NoneV, p))"
| "execute (Suc k) (Obj Decl nodes slot) caller local p =
     then_do
       (for_nodes_r (\<lambda>node p.
          if \<not> is_Token node then discard (execute k node T_declare local p) else returns p) nodes p)
       (\<lambda>p. returns (NoneV, p))"
| "execute (Suc k) (Obj IdList nodes slot) caller local p =
     then_do
       (for_nodes_r (\<lambda>node p.
          if \<not> is_Token node then discard (execute k node caller local p) else returns p) nodes p)
       (\<lambda>p. returns (NoneV, p))"
| "execute (Suc k) (Obj Id_cls nodes slot) caller local p =
     certainly (Id_execute nodes caller local p)"
| "execute (Suc k) (Obj StmtSeq nodes slot) caller local p =
     then_do
       (for_nodes_r (\<lambda>node p. discard (execute k node caller local p)) nodes p)
       (\<lambda>p. returns (NoneV, p))"
| "execute (Suc k) (Obj Assign nodes slot) caller local p =
     then_do
       (for_nodes_r (\<lambda>node (var, tree, expr, p).
          if is_cls Id_cls node
          then then_do (execute k node T_assign local p) (\<lambda>(r, p).
                 case r of PairV v t \<Rightarrow> returns (v, t, expr, p) | _ \<Rightarrow> exits TypeError)
          else if is_cls Expr node
          then then_do (execute k node caller local p) (\<lambda>(r, p). returns (var, tree, r, p))
          else returns (var, tree, expr, p))
          nodes ([], None, IntV 0, p))
       (\<lambda>(var, tree, expr, p).
          case tree of
            None \<Rightarrow> exits AttributeError
          | Some t \<Rightarrow> returns (NoneV, set_item t var expr p))"
| "execute (Suc k) (Obj If_cls nodes slot) caller local p =
     (case new_scope p of (self_local, p) \<Rightarrow>
        let p = set_child local (Some self_local) p in
        then_do (item nodes 1) (\<lambda>cond.
        then_do (execute k cond caller self_local p) (\<lambda>(truth, p).
        then_do
          (if truthy truth
           then then_do (item nodes 3) (\<lambda>stmt. discard (execute k stmt caller self_local p))
           else then_do (item nodes 4) (\<lambda>n4.
                  if n4 = Tok ELSE
                  then then_do (item nodes 5) (\<lambda>stmt. discard (execute k stmt caller self_local p))
                  else returns p))
          (\<lambda>p. returns (NoneV, set_child local None p)))))"
| "execute (Suc k) (Obj While nodes slot) caller local p =
     (case new_scope p of (self_local, p) \<Rightarrow>
        let p = set_child local (Some self_local) p in
        then_do (item nodes 1) (\<lambda>cond.
        then_do (item nodes 3) (\<lambda>stmt.
        then_do (while_loop k cond stmt caller self_local local p) (\<lambda>p.
        returns (NoneV, set_child local None p)))))"
| "execute (Suc k) (Obj Input nodes slot) caller local p =
     then_do
       (for_nodes_r (\<lambda>node (var, tree, p).
          if is_cls Id_cls node
          then then_do (execute k node T_assign local p) (\<lambda>(r, p).
                 case r of PairV v t \<Rightarrow> returns (v, t, p) | _ \<Rightarrow> exits TypeError)
          else returns (var, tree, p))
          nodes ([], None, p))
       (\<lambda>(var, tree, p).
          if length (data p) > 0
          then (case tree of
                  None \<Rightarrow> exits AttributeError
                | Some t \<Rightarrow>
                    returns (NoneV, set_item t var (StrV (hd (data p))) (p\<lparr>data := tl (data p)\<rparr>)))
          else exits InsufficientEntries)"
| "execute (Suc k) (Obj Output nodes slot) caller local p =
     then_do (item nodes 1) (\<lambda>e.
     then_do (execute k e T_get local p) (\<lambda>(v, p).
     returns (NoneV, p\<lparr>printed := printed p @ [v]\<rparr>)))"
| "execute (Suc k) (Obj Expr nodes slot) caller local p =
     then_do (item nodes 0) (\<lambda>n0.
     then_do (execute k n0 T_expr local p) (\<lambda>(val, p).
     if length nodes > 1
     then (if nodes ! 1 = Tok ADD
           then then_do (item nodes 2) (\<lambda>n2.
                then_do (execute k n2 caller local p) (\<lambda>(r, p).
                then_do (certainly (py_add val r)) (\<lambda>val. returns (val, p))))
           else if nodes ! 1 = Tok SUB
           then then_do (item nodes 2) (\<lambda>n2.
                then_do (execute k n2 caller local p) (\<lambda>(r, p).
                then_do (certainly (py_sub val r)) (\<lambda>val. returns (val, p))))
           else returns (val, p))
     else returns (val, p)))"
| "execute (Suc k) (Obj Term nodes slot) caller local p =
     then_do (item nodes 0) (\<lambda>n0.
     then_do (execute k n0 caller local p) (\<lambda>(val, p).
     if length nodes > 1 \<and> nodes ! 1 = Tok MULT
     then then_do (item nodes 2) (\<lambda>n2.
          then_do (execute k n2 caller local p) (\<lambda>(r, p).
          then_do (certainly (py_mul val r)) (\<lambda>val. returns (val, p))))
     else returns (val, p)))"
| "execute (Suc k) (Obj Factor nodes slot) caller local p =
     then_do (item nodes 0) (\<lambda>n0.
     if is_cls Const n0 then execute k n0 caller local p
     else if is_cls Id_cls n0 then execute k n0 T_get local p
     else then_do (item nodes 1) (\<lambda>n1. execute k n1 caller local p))"
| "execute (Suc k) (Obj Cond nodes slot) caller local p =
     then_do (item nodes 0) (\<lambda>n0.
     if n0 \<noteq> Tok NEGATION
     then then_do (execute k n0 caller local p) (\<lambda>(val, p).
          if length nodes > 1 \<and> nodes ! 1 = Tok OR
          then then_do (item nodes 2) (\<lambda>n2.
               then_do (execute k n2 caller local p) (\<lambda>(r, p).
               then_do (certainly (py_or val r)) (\<lambda>val. returns (val, p))))
          else returns (val, p))
     else then_do (item nodes 2) (\<lambda>n2.
          then_do (execute k n2 caller local p) (\<lambda>(r, p).
          returns (BoolV (\<not> truthy r), p))))"
| "execute (Suc k) (Obj Cmpr nodes slot) caller local p =
     then_do (item nodes 0) (\<lambda>n0.
     then_do (execute k n0 caller local p) (\<lambda>(expr, p).
     then_do (item nodes 1) (\<lambda>n1.
     if n1 = Tok LESS
     then then_do (item nodes 2) (\<lambda>n2.
          then_do (execute k n2 caller local p) (\<lambda>(r, p).
          then_do (certainly (py_lt expr r)) (\<lambda>b. returns (b, p))))
     else if n1 = Tok EQUAL
     then then_do (item nodes 2) (\<lambda>n2.
          then_do (execute k n2 caller local p) (\<lambda>(r, p).
          returns (py_eq expr r, p)))
     else then_do (item nodes 2) (\<lambda>n2.
          then_do (execute k n2 caller local p) (\<lambda>(r, p).
          then_do (certainly (py_le expr r)) (\<lambda>b. returns (b, p)))))))"
| "execute (Suc k) (Obj Const nodes slot) caller local p =
     (case nodes of
        [] \<Rightarrow> returns (NoneV, p)
      | node # _ \<Rightarrow> (case node of Num n \<Rightarrow> returns (IntV n, p) | _ \<Rightarrow> exits TypeError))"
| "execute (Suc k) (Tok t) caller local p = exits AttributeError"
| "execute (Suc k) (Str s) caller local p = exits AttributeError"
| "execute (Suc k) (Num n) caller local p = exits AttributeError"
| "while_loop 0 cond stmt caller self_local local p = None"
| "while_loop (Suc k) cond stmt caller self_local local p =
     then_do (execute k cond caller self_local p) (\<lambda>(c, p).
     if truthy c
     then then_do (execute k stmt caller local p) (\<lambda>(_, p).
          while_loop k cond stmt caller self_local local p)
     else returns p)"


section \<open>The data file and the entry point\<close>

text \<open>\<^verbatim>\<open>text.split(' ')\<close>: the pieces between single spaces, empty pieces included.\<close>

fun split_space :: "string \<Rightarrow> string list" where
  "split_space [] = [[]]"
| "split_space (c # cs) =
     (if c = CHR '' '' then [] # split_space cs
      else (case split_space cs of w # ws \<Rightarrow> (c # w) # ws | [] \<Rightarrow> [[c]]))"

text \<open>
  The strings that Python's \<^verbatim>\<open>int\<close> accepts in base ten: surrounding white space, an
  optional sign, and digits that single underscores may separate. White space is what
  Python strips from a string: among the characters below 256, the codes 9 to 13, 28 to
  32, 133 and 160.
\<close>

definition is_space :: "char \<Rightarrow> bool" where
  "is_space c =
     (c \<in> {CHR '' '', CHR 0x09, CHR 0x0A, CHR 0x0B, CHR 0x0C, CHR 0x0D,
            CHR 0x1C, CHR 0x1D, CHR 0x1E, CHR 0x1F, CHR 0x85, CHR 0xA0})"

definition is_digit :: "char \<Rightarrow> bool" where
  "is_digit c = (c \<in> set ''0123456789'')"

fun digits_ok :: "string \<Rightarrow> bool" where
  "digits_ok [] = False"
| "digits_ok [c] = is_digit c"
| "digits_ok (c # d # cs) =
     (is_digit c \<and> (if d = CHR ''_'' then digits_ok cs else digits_ok (d # cs)))"

definition int_accepts :: "string \<Rightarrow> bool" where
  "int_accepts s =
     (case rev (dropWhile is_space (rev (dropWhile is_space s))) of
        [] \<Rightarrow> False
      | c # cs \<Rightarrow> if c = CHR ''+'' \<or> c = CHR ''-'' then digits_ok cs else digits_ok (c # cs))"

text \<open>
  \<^verbatim>\<open>Parser.clean_data\<close>: the loop \<^verbatim>\<open>for c in consts: c = int(c)\<close> rebinds the loop
  variable only, so it raises \<^verbatim>\<open>ValueError\<close> on a piece that is no integer and otherwise
  leaves the list of strings as \<^verbatim>\<open>split\<close> produced it.
\<close>

definition clean_data :: "string \<Rightarrow> error + string list" where
  "clean_data text =
     (let consts = split_space text
      in if list_all int_accepts consts then Inr consts else Inl ValueError)"

definition build_tree :: "nat \<Rightarrow> node \<Rightarrow> parser \<Rightarrow> (error + node \<times> parser) option" where
  "build_tree k tree p =
     then_do (parse k tree p) (\<lambda>(tree, p).
     then_do (certainly (semantics tree T_None (global_scope p) p)) (\<lambda>p.
     returns (tree, p)))"

definition execute_tree :: "nat \<Rightarrow> string \<Rightarrow> node \<Rightarrow> parser \<Rightarrow> (error + parser) option" where
  "execute_tree k text tree p =
     then_do (certainly (clean_data text)) (\<lambda>consts.
     case new_scope (p\<lparr>data := consts\<rparr>) of (g, p) \<Rightarrow>
       discard (execute k tree T_None g (p\<lparr>global_scope := g\<rparr>)))"

text \<open>
  \<^verbatim>\<open>Main.main\<close>, given the tokens of the program file and the text of the data file.
\<close>

definition main :: "nat \<Rightarrow> lexeme list \<Rightarrow> string \<Rightarrow> (error + parser) option" where
  "main k f text =
     (case Parser_init f of (tree, p) \<Rightarrow>
        then_do (build_tree k tree p) (\<lambda>(tree, p).
        execute_tree k text tree p))"


section \<open>Outcomes of a run, and evaluation\<close>

definition succeeds :: "(error + 'a) option \<Rightarrow> bool" where
  "succeeds r = (case r of Some (Inr _) \<Rightarrow> True | _ \<Rightarrow> False)"

definition aborts_with :: "error \<Rightarrow> (error + 'a) option \<Rightarrow> bool" where
  "aborts_with e r = (r = Some (Inl e))"

lemma dfs_scope_leaf:
  "child (fr t) = None \<Longrightarrow>
   dfs_scope fr t var = Some (if dict (fr t) var \<noteq> None then Some t else None)"
  by (subst dfs_scope.simps) simp

lemma dfs_scope_step:
  "child (fr t) = Some c \<Longrightarrow>
   dfs_scope fr t var =
     Option.bind (dfs_scope fr c var) (\<lambda>sub.
       if (case sub of None \<Rightarrow> False | Some s \<Rightarrow> dict (fr s) var \<noteq> None) then Some sub
       else if dict (fr t) var \<noteq> None then Some (Some t)
       else Some None)"
  by (subst dfs_scope.simps) simp

lemmas run_defs =
  Parser_init_def build_tree_def execute_tree_def main_def new_obj_def new_scope_def
  scope_tree_init_def numeral_eq_Suc token_assert_def token_validate_def token_def
  append_parse_def returns_def exits_def next_token_def nextToken_def get_id_def
  get_const_def certainly_def Id_semantics_name_def set_item_def set_child_def
  dfs_scope_leaf dfs_scope_step discard_def item_def clean_data_def int_accepts_def
  is_space_def is_digit_def succeeds_def aborts_with_def

section \<open>Checking against execution\<close>

text \<open>
  \<^verbatim>\<open>program int x; begin output y; end\<close> and
  \<^verbatim>\<open>program int x; begin if y < 1 then x = 1; endif end\<close>: the name \<open>y\<close> is declared
  nowhere.
\<close>

definition output_undeclared_program :: "lexeme list" where
  "output_undeclared_program =
     [Sym PROGRAM, Sym INT_tok, Name ''x'', Sym SEMICOLON, Sym BEGIN,
      Sym OUTPUT, Name ''y'', Sym SEMICOLON, Sym END]"

definition cond_undeclared_program :: "lexeme list" where
  "cond_undeclared_program =
     [Sym PROGRAM, Sym INT_tok, Name ''x'', Sym SEMICOLON, Sym BEGIN,
      Sym IF, Name ''y'', Sym LESS, Number 1, Sym THEN,
        Name ''x'', Sym ASSIGN, Number 1, Sym SEMICOLON, Sym ENDIF, Sym END]"

text \<open>
  C1. The claim: whenever execution stops on an undeclared variable or on a duplicate
  declaration, the checking pass has stopped on it before. On the code this fails:
  \<^verbatim>\<open>Output.semantics\<close> passes the label \<^verbatim>\<open>'call'\<close> and conditions are checked with the
  label \<^verbatim>\<open>None\<close>, and \<^verbatim>\<open>Id.semantics\<close> checks nothing under either, so for both programs
  \<^verbatim>\<open>build_tree\<close> (parsing and checking) returns, and execution then stops at the read of
  \<open>y\<close>, which no frame declares.
\<close>

theorem checking_misses_undeclared_read:
  "succeeds (case Parser_init output_undeclared_program of (tree, p) \<Rightarrow> build_tree 20 tree p)
   \<and> aborts_with (NotInstantiated ''y'') (main 20 output_undeclared_program ''0'')
   \<and> succeeds (case Parser_init cond_undeclared_program of (tree, p) \<Rightarrow> build_tree 20 tree p)
   \<and> aborts_with (NotInstantiated ''y'') (main 20 cond_undeclared_program ''0'')"
  by (simp add: output_undeclared_program_def cond_undeclared_program_def run_defs)

section \<open>Declarations in a loop body\<close>

text \<open>
  \<^verbatim>\<open>program int x; begin x = 0; while x < 2 begin int y; y = x; x = x + 1; endwhile end\<close>
\<close>

definition loop_declaration_program :: "lexeme list" where
  "loop_declaration_program =
     [Sym PROGRAM, Sym INT_tok, Name ''x'', Sym SEMICOLON, Sym BEGIN,
      Name ''x'', Sym ASSIGN, Number 0, Sym SEMICOLON,
      Sym WHILE, Name ''x'', Sym LESS, Number 2, Sym BEGIN,
        Sym INT_tok, Name ''y'', Sym SEMICOLON,
        Name ''y'', Sym ASSIGN, Name ''x'', Sym SEMICOLON,
        Name ''x'', Sym ASSIGN, Name ''x'', Sym ADD, Number 1, Sym SEMICOLON,
      Sym ENDWHILE, Sym END]"

text \<open>
  C2. The claim: a variable declared in the body of a loop keeps its value into the
  second iteration, and executing its declaration again does not abort the run. On the
  code the program above passes the checks, and its second iteration stops at the
  declaration of \<open>y\<close>: \<^verbatim>\<open>While.execute\<close> runs the body in the frame of the enclosing
  block, where the first iteration has declared \<open>y\<close> already.
\<close>

theorem loop_body_declaration_aborts_second_iteration:
  "succeeds (case Parser_init loop_declaration_program of (tree, p) \<Rightarrow> build_tree 20 tree p)
   \<and> aborts_with (DeclaredTwice ''y'') (main 20 loop_declaration_program ''0'')"
  by (simp add: loop_declaration_program_def run_defs)

section \<open>Values read from the data file\<close>

text \<open>
  \<^verbatim>\<open>program int x; begin input x; while x < 3 begin x = x + 1; endwhile output x; end\<close>,
  and the same program with the condition written \<^verbatim>\<open>(x < 3)\<close>.
\<close>

definition input_loop_program :: "lexeme list" where
  "input_loop_program =
     [Sym PROGRAM, Sym INT_tok, Name ''x'', Sym SEMICOLON, Sym BEGIN,
      Sym INPUT, Name ''x'', Sym SEMICOLON,
      Sym WHILE, Name ''x'', Sym LESS, Number 3, Sym BEGIN,
        Name ''x'', Sym ASSIGN, Name ''x'', Sym ADD, Number 1, Sym SEMICOLON,
      Sym ENDWHILE,
      Sym OUTPUT, Name ''x'', Sym SEMICOLON, Sym END]"

definition input_loop_paren_program :: "lexeme list" where
  "input_loop_paren_program =
     [Sym PROGRAM, Sym INT_tok, Name ''x'', Sym SEMICOLON, Sym BEGIN,
      Sym INPUT, Name ''x'', Sym SEMICOLON,
      Sym WHILE, Sym LPAREN, Name ''x'', Sym LESS, Number 3, Sym RPAREN, Sym BEGIN,
        Name ''x'', Sym ASSIGN, Name ''x'', Sym ADD, Number 1, Sym SEMICOLON,
      Sym ENDWHILE,
      Sym OUTPUT, Name ''x'', Sym SEMICOLON, Sym END]"

text \<open>
  C3. The claim: with the data file \<^verbatim>\<open>0\<close> the loop ends and \<^verbatim>\<open>output x\<close> prints 3. On the
  code \<^verbatim>\<open>clean_data\<close> returns the strings of the file, so \<open>x\<close> holds the string \<^verbatim>\<open>'0'\<close>
  and the first comparison \<^verbatim>\<open>'0' < 3\<close> raises \<^verbatim>\<open>TypeError\<close>; nothing is printed. With
  the parentheses of the claim the program does not parse: after \<^verbatim>\<open>( x\<close> the
  parenthesis rule of \<^verbatim>\<open>Factor\<close> expects \<^verbatim>\<open>)\<close> and finds \<^verbatim>\<open><\<close>.
\<close>

theorem input_value_is_string_comparison_raises:
  "clean_data ''0'' = Inr [''0'']
   \<and> aborts_with TypeError (main 20 input_loop_program ''0'')
   \<and> aborts_with (InvalidlyPlaced LESS RPAREN) (main 20 input_loop_paren_program ''0'')"
  by (simp add: input_loop_program_def input_loop_paren_program_def run_defs)

section \<open>A comparison without its operator\<close>

text \<open>
  \<^verbatim>\<open>program int x; begin x = 1; while x 3 begin x = 1; endwhile end\<close>
\<close>

definition missing_comparison_program :: "lexeme list" where
  "missing_comparison_program =
     [Sym PROGRAM, Sym INT_tok, Name ''x'', Sym SEMICOLON, Sym BEGIN,
      Name ''x'', Sym ASSIGN, Number 1, Sym SEMICOLON,
      Sym WHILE, Name ''x'', Number 3, Sym BEGIN,
        Name ''x'', Sym ASSIGN, Number 1, Sym SEMICOLON,
      Sym ENDWHILE, Sym END]"

text \<open>
  C7. The claim: every parse routine aborts on a token that the grammar does not allow
  at its position, and \<^verbatim>\<open>Cmpr.parse\<close> aborts when the token after the first expression
  is none of \<^verbatim>\<open>==\<close>, \<^verbatim>\<open><\<close>, \<^verbatim>\<open><=\<close>. On the code \<^verbatim>\<open>Cmpr.parse\<close> has no final \<^verbatim>\<open>else\<close>: on
  \<^verbatim>\<open>x 3\<close> it consumes no operator and parses the second expression, so the node holds two
  expressions and no operator. The program above parses and passes the checks; its
  execution raises \<^verbatim>\<open>IndexError\<close> in \<^verbatim>\<open>Cmpr.execute\<close> at \<^verbatim>\<open>self.nodes[2]\<close>.
\<close>

theorem Cmpr_parse_accepts_missing_operator:
  "map_option (map_sum id (\<lambda>(tree, p). (tree, scanner p)))
     (parse 10 (Obj Cmpr [] None)
        (next_token (snd (Parser_init [Sym WHILE, Name ''x'', Number 3, Sym BEGIN]))))
     = Some (Inr (Obj Cmpr
                    [Obj Expr [Obj Term [Obj Factor [Obj Id_cls [Tok ID, Str ''x''] None] None] None] None,
                     Obj Expr [Obj Term [Obj Factor [Obj Const [Num 3] None] None] None] None]
                    None,
                  [Sym BEGIN]))
   \<and> succeeds (case Parser_init missing_comparison_program of (tree, p) \<Rightarrow> build_tree 20 tree p)
   \<and> aborts_with IndexError (main 20 missing_comparison_program ''0'')"
  by (simp add: missing_comparison_program_def run_defs)


section \<open>The bound on the depth of calls\<close>













section \<open>Right-nested expressions\<close>

text \<open>The parse tree of a constant used as a term, and of \<^verbatim>\<open>a op1 (b op2 c)\<close>.\<close>

definition const_term :: "int \<Rightarrow> node" where
  "const_term a = Obj Term [Obj Factor [Obj Const [Num a] None] None] None"



text \<open>A parser object that has read nothing, for closed examples.\<close>

definition idle_parser :: parser where
  "idle_parser = snd (Parser_init [])"









section \<open>Integer arithmetic\<close>

text \<open>
  The reading of the claim below: the value of \<open>x\<close> in two's complement of width \<open>w\<close>.
\<close>

definition wraparound :: "nat \<Rightarrow> int \<Rightarrow> int" where
  "wraparound w x = (x + 2 ^ (w - 1)) mod 2 ^ w - 2 ^ (w - 1)"

text \<open>
  \<^verbatim>\<open>program int x; begin output 9223372036854775807 + 1; x = 0 - 9223372036854775807;\<close>
  \<^verbatim>\<open>output x - 2; output 4294967296 * 4294967296; end\<close>
\<close>

definition overflow_program :: "lexeme list" where
  "overflow_program =
     [Sym PROGRAM, Sym INT_tok, Name ''x'', Sym SEMICOLON, Sym BEGIN,
      Sym OUTPUT, Number 9223372036854775807, Sym ADD, Number 1, Sym SEMICOLON,
      Name ''x'', Sym ASSIGN, Number 0, Sym SUB, Number 9223372036854775807, Sym SEMICOLON,
      Sym OUTPUT, Name ''x'', Sym SUB, Number 2, Sym SEMICOLON,
      Sym OUTPUT, Number 4294967296, Sym MULT, Number 4294967296, Sym SEMICOLON,
      Sym END]"

lemma wraparound_differs: "0 < w \<Longrightarrow> wraparound w (2 ^ (w - 1)) \<noteq> 2 ^ (w - 1)"
proof -
  assume "0 < w"
  then obtain v where v: "w = Suc v" by (cases w) auto
  have "wraparound w (2 ^ (w - 1)) = - (2 ^ (w - 1))"
    by (simp add: wraparound_def v)
  moreover have "(2::int) ^ (w - 1) > 0" by simp
  ultimately show ?thesis by linarith
qed

text \<open>
  C6, as stated: \<^verbatim>\<open>+\<close>, \<^verbatim>\<open>-\<close> and \<^verbatim>\<open>*\<close> wrap around at a fixed width. On the code the
  three outputs of the program above are the exact integers, none of them the value
  that a width of 64 bits (or of 32 bits) would give.
\<close>

theorem arithmetic_wraps_counterexample:
  "map_option (map_sum id printed) (main 20 overflow_program ''0'')
     = Some (Inr [IntV 9223372036854775808, IntV (- 9223372036854775809),
                  IntV 18446744073709551616])
   \<and> wraparound 64 (9223372036854775807 + 1) = - 9223372036854775808
   \<and> wraparound 64 (- 9223372036854775807 - 2) = 9223372036854775807
   \<and> wraparound 64 (4294967296 * 4294967296) = 0
   \<and> wraparound 32 (9223372036854775807 + 1) = 0"
  by (simp add: overflow_program_def run_defs wraparound_def)

text \<open>
  C6, amended. Whenever the two operands of an \<^verbatim>\<open>Expr\<close> or a \<^verbatim>\<open>Term\<close> evaluate to
  integers \<open>a\<close> and \<open>b\<close>, the node evaluates to the exact integer \<open>a + b\<close>, \<open>a - b\<close> or
  \<open>a * b\<close>: Python's integers are unbounded and nothing is reduced. In particular, for
  every width \<open>w\<close>, the sum of \<open>2 ^ (w - 1) - 1\<close> and 1 is \<open>2 ^ (w - 1)\<close>, which is not what
  wrapping at width \<open>w\<close> gives.
\<close>

theorem arithmetic_is_exact:
  "(execute k x T_expr local p = Some (Inr (IntV a, p1)) \<and>
    execute k y caller local p1 = Some (Inr (IntV b, p2)) \<longrightarrow>
      execute (Suc k) (Obj Expr [x, Tok ADD, y] s) caller local p
        = Some (Inr (IntV (a + b), p2)) \<and>
      execute (Suc k) (Obj Expr [x, Tok SUB, y] s) caller local p
        = Some (Inr (IntV (a - b), p2)))
   \<and> (execute k x caller local p = Some (Inr (IntV a, p1)) \<and>
      execute k y caller local p1 = Some (Inr (IntV b, p2)) \<longrightarrow>
      execute (Suc k) (Obj Term [x, Tok MULT, y] s) caller local p
        = Some (Inr (IntV (a * b), p2)))
   \<and> (0 < w \<longrightarrow>
        execute (k + 5) (Obj Expr [const_term (2 ^ (w - 1) - 1), Tok ADD,
                                   Obj Expr [const_term 1] None] None) caller local p
          = Some (Inr (IntV (2 ^ (w - 1)), p))
        \<and> wraparound w (2 ^ (w - 1)) \<noteq> 2 ^ (w - 1))"
proof (intro conjI impI)
  assume "0 < w"
  then show "wraparound w (2 ^ (w - 1)) \<noteq> 2 ^ (w - 1)" by (rule wraparound_differs)
qed (simp_all add: run_defs const_term_def)

theorem arithmetic_is_exact_witness:
  "execute 4 (Obj Expr [const_term 2147483647, Tok ADD, const_term 1] None) T_None 0 idle_parser
     = Some (Inr (IntV 2147483648, idle_parser))
   \<and> execute 4 (Obj Expr [const_term 2147483647, Tok SUB, const_term (- 2)] None) T_None 0 idle_parser
     = Some (Inr (IntV 2147483649, idle_parser))
   \<and> execute 4 (Obj Term [const_term 65536, Tok MULT, const_term 65536] None) T_None 0 idle_parser
     = Some (Inr (IntV 4294967296, idle_parser))
   \<and> execute 5 (Obj Expr [const_term (2 ^ (32 - 1) - 1), Tok ADD,
                          Obj Expr [const_term 1] None] None) T_None 0 idle_parser
     = Some (Inr (IntV (2 ^ (32 - 1)), idle_parser))
   \<and> wraparound 32 (2 ^ (32 - 1)) \<noteq> 2 ^ (32 - 1)"
proof -
  have x1: "execute 3 (const_term 2147483647) T_expr 0 idle_parser
              = Some (Inr (IntV 2147483647, idle_parser))"
    by (simp add: const_term_def run_defs)
  have x2: "execute 3 (const_term 2147483647) T_None 0 idle_parser
              = Some (Inr (IntV 2147483647, idle_parser))"
    by (simp add: const_term_def run_defs)
  have y1: "execute 3 (const_term 1) T_None 0 idle_parser = Some (Inr (IntV 1, idle_parser))"
    by (simp add: const_term_def run_defs)
  have y2: "execute 3 (const_term (- 2)) T_None 0 idle_parser
              = Some (Inr (IntV (- 2), idle_parser))"
    by (simp add: const_term_def run_defs)
  have z: "execute 3 (const_term 65536) T_None 0 idle_parser
              = Some (Inr (IntV 65536, idle_parser))"
    by (simp add: const_term_def run_defs)
  note a = arithmetic_is_exact [where k = 3 and x = "const_term 2147483647" and local = 0
      and p = idle_parser and a = 2147483647 and ?p1.0 = idle_parser and y = "const_term 1"
      and caller = T_None and b = 1 and ?p2.0 = idle_parser and s = None and w = 32]
  note b = arithmetic_is_exact [where k = 3 and x = "const_term 2147483647" and local = 0
      and p = idle_parser and a = 2147483647 and ?p1.0 = idle_parser and y = "const_term (- 2)"
      and caller = T_None and b = "- 2" and ?p2.0 = idle_parser and s = None and w = 32]
  note c = arithmetic_is_exact [where k = 3 and x = "const_term 65536" and local = 0
      and p = idle_parser and a = 65536 and ?p1.0 = idle_parser and y = "const_term 65536"
      and caller = T_None and b = 65536 and ?p2.0 = idle_parser and s = None and w = 32]
  note d = arithmetic_is_exact [where k = 0 and x = "const_term 1" and local = 0
      and p = idle_parser and a = 1 and ?p1.0 = idle_parser and y = "const_term 1"
      and caller = T_None and b = 1 and ?p2.0 = idle_parser and s = None and w = 32]
  from a x1 y1 have 1: "execute 4 (Obj Expr [const_term 2147483647, Tok ADD, const_term 1] None)
      T_None 0 idle_parser = Some (Inr (IntV 2147483648, idle_parser))"
    by simp
  from b x1 y2 have 2: "execute 4 (Obj Expr [const_term 2147483647, Tok SUB, const_term (- 2)] None)
      T_None 0 idle_parser = Some (Inr (IntV 2147483649, idle_parser))"
    by simp
  from c z have 3: "execute 4 (Obj Term [const_term 65536, Tok MULT, const_term 65536] None)
      T_None 0 idle_parser = Some (Inr (IntV 4294967296, idle_parser))"
    by simp
  from d have 4: "execute 5 (Obj Expr [const_term (2 ^ (32 - 1) - 1), Tok ADD,
                          Obj Expr [const_term 1] None] None) T_None 0 idle_parser
     = Some (Inr (IntV (2 ^ (32 - 1)), idle_parser))
   \<and> wraparound 32 (2 ^ (32 - 1)) \<noteq> 2 ^ (32 - 1)"
    by simp
  from 1 2 3 4 show ?thesis by simp
qed

section \<open>Name resolution\<close>

text \<open>
  A scope chain: the frames \<open>path\<close>, root first, each the \<^verbatim>\<open>child\<close> of the one before, the
  last without a child. The innermost frame of a path that contains a name is the last
  one whose dictionary has it.
\<close>

fun chain :: "(addr \<Rightarrow> scope_tree) \<Rightarrow> addr list \<Rightarrow> bool" where
  "chain fr [] = False"
| "chain fr [a] = (child (fr a) = None)"
| "chain fr (a # b # bs) = (child (fr a) = Some b \<and> chain fr (b # bs))"

definition innermost :: "(addr \<Rightarrow> scope_tree) \<Rightarrow> addr list \<Rightarrow> string \<Rightarrow> addr option" where
  "innermost fr path var =
     (case filter (\<lambda>a. dict (fr a) var \<noteq> None) path of [] \<Rightarrow> None | fs \<Rightarrow> Some (last fs))"

lemma innermost_Cons:
  "innermost fr (a # as) var =
     (case innermost fr as var of
        Some s \<Rightarrow> Some s
      | None \<Rightarrow> if dict (fr a) var \<noteq> None then Some a else None)"
  by (auto simp add: innermost_def split: list.splits)

lemma innermost_Some: "innermost fr as var = Some s \<Longrightarrow> dict (fr s) var \<noteq> None"
proof -
  assume a: "innermost fr as var = Some s"
  let ?fs = "filter (\<lambda>a. dict (fr a) var \<noteq> None) as"
  from a have ne: "?fs \<noteq> []" and s: "s = last ?fs"
    by (auto simp add: innermost_def split: list.splits)
  from ne have "last ?fs \<in> set ?fs" by (rule last_in_set)
  with s show ?thesis by simp
qed

text \<open>
  C8. On every scope chain \<^verbatim>\<open>dfs_scope\<close> returns, and what it returns is the innermost
  frame of the chain that contains the name, or \<^verbatim>\<open>None\<close> when no frame does.
\<close>

theorem dfs_scope_innermost:
  "chain fr (a # as) \<Longrightarrow> dfs_scope fr a var = Some (innermost fr (a # as) var)"
proof (induction as arbitrary: a)
  case Nil
  then show ?case by (simp add: dfs_scope_leaf innermost_def)
next
  case (Cons b bs)
  from Cons.prems have c: "child (fr a) = Some b" and ch: "chain fr (b # bs)" by simp_all
  from Cons.IH [OF ch] have ih: "dfs_scope fr b var = Some (innermost fr (b # bs) var)" .
  show ?case
  proof (cases "innermost fr (b # bs) var")
    case None
    then show ?thesis using c ih by (simp add: dfs_scope_step innermost_Cons [of fr a])
  next
    case (Some s)
    then have "dict (fr s) var \<noteq> None" by (rule innermost_Some)
    then show ?thesis using c ih Some by (simp add: dfs_scope_step innermost_Cons [of fr a])
  qed
qed

text \<open>
  Three frames: the root 0 declares \<open>x\<close> and \<open>y\<close>, its child 1 declares \<open>x\<close> again, and
  the child 2 of 1 declares \<open>z\<close>.
\<close>

definition shadow_frames :: "addr \<Rightarrow> scope_tree" where
  "shadow_frames =
     (\<lambda>_. scope_tree_init)
       (0 := \<lparr>dict = [''x'' \<mapsto> IntV 1, ''y'' \<mapsto> IntV 2], child = Some 1\<rparr>,
        1 := \<lparr>dict = [''x'' \<mapsto> IntV 3], child = Some 2\<rparr>,
        2 := \<lparr>dict = [''z'' \<mapsto> NoneV], child = None\<rparr>)"

theorem dfs_scope_innermost_witness:
  "chain shadow_frames [0, 1, 2]
   \<and> dfs_scope shadow_frames 0 ''x'' = Some (Some 1)
   \<and> dfs_scope shadow_frames 0 ''y'' = Some (Some 0)
   \<and> dfs_scope shadow_frames 0 ''z'' = Some (Some 2)
   \<and> dfs_scope shadow_frames 0 ''w'' = Some None"
proof -
  have c: "chain shadow_frames [0, 1, 2]" by (simp add: shadow_frames_def)
  have i: "innermost shadow_frames [0, 1, 2] ''x'' = Some 1"
    "innermost shadow_frames [0, 1, 2] ''y'' = Some 0"
    "innermost shadow_frames [0, 1, 2] ''z'' = Some 2"
    "innermost shadow_frames [0, 1, 2] ''w'' = None"
    by (simp_all add: innermost_def shadow_frames_def)
  show ?thesis
    using c i dfs_scope_innermost [OF c, of "''x''"] dfs_scope_innermost [OF c, of "''y''"]
      dfs_scope_innermost [OF c, of "''z''"] dfs_scope_innermost [OF c, of "''w''"]
    by simp
qed

section \<open>Conditions joined by \<^verbatim>\<open>|\<close>\<close>

text \<open>
  C9. \<^verbatim>\<open>Cond.execute\<close> on \<^verbatim>\<open>Cmpr | Cond\<close> evaluates the right operand whatever the value
  \<open>v\<close> of the left one: when the right operand aborts the run, the condition aborts
  with the same error, also for \<open>v = True\<close>; when both operands give booleans, the
  result is their disjunction.
\<close>

theorem Cond_or_evaluates_both_operands:
  assumes "lhs \<noteq> Tok NEGATION"
    and "execute k lhs caller local p = Some (Inr (v, p1))"
  shows "(execute k rhs caller local p1 = Some (Inl e) \<longrightarrow>
            execute (Suc k) (Obj Cond [lhs, Tok OR, rhs] slot) caller local p = Some (Inl e))
       \<and> (v = BoolV a \<and> execute k rhs caller local p1 = Some (Inr (BoolV b, p2)) \<longrightarrow>
            execute (Suc k) (Obj Cond [lhs, Tok OR, rhs] slot) caller local p
              = Some (Inr (BoolV (a \<or> b), p2)))"
  using assms by (simp add: item_def returns_def certainly_def)

text \<open>
  The condition \<^verbatim>\<open>1 < 2 | y < 1\<close> as \<^verbatim>\<open>Cond.parse\<close> builds it, where no frame declares \<open>y\<close>.
\<close>

definition true_or_unset_cond :: node where
  "true_or_unset_cond =
     Obj Cond
       [Obj Cmpr [Obj Expr [const_term 1] None, Tok LESS, Obj Expr [const_term 2] None] None,
        Tok OR,
        Obj Cond
          [Obj Cmpr [Obj Expr [Obj Term [Obj Factor [Obj Id_cls [Tok ID, Str ''y''] None] None] None] None,
                     Tok LESS, Obj Expr [const_term 1] None] None] None] None"

theorem Cond_or_evaluates_both_operands_witness:
  "parse 8 (Obj Cond [] None)
     (idle_parser\<lparr>scanner := [Number 1, Sym LESS, Number 2, Sym OR, Name ''y'', Sym LESS, Number 1]\<rparr>)
     = Some (Inr (true_or_unset_cond, idle_parser\<lparr>scanner := []\<rparr>))
   \<and> execute 7 (Obj Cmpr [Obj Expr [const_term 1] None, Tok LESS, Obj Expr [const_term 2] None] None)
       T_None 0 idle_parser = Some (Inr (BoolV True, idle_parser))
   \<and> execute 8 true_or_unset_cond T_None 0 idle_parser = Some (Inl (NotInstantiated ''y''))"
proof -
  let ?lhs = "Obj Cmpr [Obj Expr [const_term 1] None, Tok LESS, Obj Expr [const_term 2] None] None"
  let ?rhs = "Obj Cond
          [Obj Cmpr [Obj Expr [Obj Term [Obj Factor [Obj Id_cls [Tok ID, Str ''y''] None] None] None] None,
                     Tok LESS, Obj Expr [const_term 1] None] None] None"
  have prs: "parse 8 (Obj Cond [] None)
     (idle_parser\<lparr>scanner := [Number 1, Sym LESS, Number 2, Sym OR, Name ''y'', Sym LESS, Number 1]\<rparr>)
     = Some (Inr (true_or_unset_cond, idle_parser\<lparr>scanner := []\<rparr>))"
    by (simp add: true_or_unset_cond_def const_term_def idle_parser_def run_defs)
  have l: "execute 7 ?lhs T_None 0 idle_parser = Some (Inr (BoolV True, idle_parser))"
    by (simp add: const_term_def run_defs)
  have r: "execute 7 ?rhs T_None 0 idle_parser = Some (Inl (NotInstantiated ''y''))"
    by (simp add: const_term_def idle_parser_def run_defs)
  have "execute 8 true_or_unset_cond T_None 0 idle_parser = Some (Inl (NotInstantiated ''y''))"
    unfolding true_or_unset_cond_def
    using Cond_or_evaluates_both_operands [where lhs = ?lhs and k = 7 and caller = T_None
        and local = 0 and p = idle_parser and v = "BoolV True" and ?p1.0 = idle_parser
        and rhs = ?rhs and e = "NotInstantiated ''y''" and slot = None] l r
    by simp
  with prs l show ?thesis by simp
qed

section \<open>Parenthesised factors\<close>








section \<open>Running the checks twice\<close>

lemma then_do_Inr:
  "then_do m f = Some (Inr r) \<longleftrightarrow> (\<exists>x. m = Some (Inr x) \<and> f x = Some (Inr r))"
proof (cases m)
  case None
  then show ?thesis by simp
next
  case (Some y)
  then show ?thesis by (cases y) simp_all
qed

lemma and_then_Inr: "and_then m f = Inr r \<longleftrightarrow> (\<exists>x. m = Inr x \<and> f x = Inr r)"
  by (cases m) simp_all

lemma for_nodes_rel:
  assumes "for_nodes body ns s = Inr s'"
    and "\<And>n t t'. n \<in> set ns \<Longrightarrow> body n t = Inr t' \<Longrightarrow> R t t'"
    and "\<And>t. R t t"
    and "\<And>a b c. R a b \<Longrightarrow> R b c \<Longrightarrow> R a c"
  shows "R s s'"
  using assms(1,2)
proof (induction ns arbitrary: s)
  case Nil
  then show ?case using assms(3) by simp
next
  case (Cons n ns)
  from Cons.prems(1) obtain t where t: "body n s = Inr t" and r: "for_nodes body ns t = Inr s'"
    by (auto simp add: and_then_Inr)
  have "R s t" by (rule Cons.prems(2) [of n]) (simp_all add: t)
  moreover have "R t s'"
  proof (rule Cons.IH [OF r])
    fix m u u' assume "m \<in> set ns" and "body m u = Inr u'"
    then show "R u u'" using Cons.prems(2) [of m u u'] by simp
  qed
  ultimately show ?case by (rule assms(4))
qed

lemma for_nodes_append:
  "for_nodes body (xs @ ys) s = and_then (for_nodes body xs s) (for_nodes body ys)"
proof (induction xs arbitrary: s)
  case Nil
  show ?case by simp
next
  case (Cons x xs)
  show ?case by (cases "body x s") (simp_all add: Cons.IH)
qed

text \<open>
  What a checking pass may do to the parser: it keeps the root of the scope chain, it
  only adds names to dictionaries, and of the \<^verbatim>\<open>child\<close> references it leaves behind none
  that it has set.
\<close>

definition evolves :: "parser \<Rightarrow> parser \<Rightarrow> bool" where
  "evolves p p' \<longleftrightarrow>
     global_scope p' = global_scope p
     \<and> (\<forall>a x. dict (frames p a) x \<noteq> None \<longrightarrow> dict (frames p' a) x \<noteq> None)
     \<and> (\<forall>a. child (frames p' a) = child (frames p a) \<or> child (frames p' a) = None)"

lemma evolves_refl: "evolves p p"
  by (simp add: evolves_def)

lemma evolves_trans: "evolves a b \<Longrightarrow> evolves b c \<Longrightarrow> evolves a c"
  unfolding evolves_def by metis

lemma evolves_child:
  "evolves p q \<Longrightarrow> child (frames q a) = child (frames p a) \<or> child (frames q a) = None"
  by (simp add: evolves_def)

lemma evolves_dict: "evolves p q \<Longrightarrow> dict (frames p a) x \<noteq> None \<Longrightarrow> dict (frames q a) x \<noteq> None"
  by (simp add: evolves_def)

lemma evolves_global: "evolves p q \<Longrightarrow> global_scope q = global_scope p"
  by (simp add: evolves_def)

lemma evolves_set_item: "evolves p (set_item a x v p)"
  by (simp add: evolves_def set_item_def)

lemma evolves_reset: "evolves p (set_child a None p)"
  by (simp add: evolves_def set_child_def)

lemma Id_semantics_name_evolves: "Id_semantics_name var parent scope p = Inr p' \<Longrightarrow> evolves p p'"
  by (auto simp add: Id_semantics_name_def evolves_refl evolves_set_item split: option.splits if_splits)

text \<open>
  The shape of the trees that the parse routines build below \<^verbatim>\<open>Program\<close>: a declaration
  sequence starts with a declaration, a declaration with \<^verbatim>\<open>int\<close> and an identifier list,
  an identifier list with an identifier, an identifier holds its token and its name, and
  the node list of an \<^verbatim>\<open>If\<close> or a \<^verbatim>\<open>While\<close> ends with its closing token.
\<close>

fun well_formed :: "node \<Rightarrow> bool" where
  "well_formed (Obj c nodes slot) =
     (list_all well_formed nodes \<and>
      (case c of
         Program \<Rightarrow> False
       | DeclSeq \<Rightarrow> (case nodes of d # _ \<Rightarrow> is_cls Decl d | [] \<Rightarrow> False)
       | Decl \<Rightarrow> (case nodes of t # l # _ \<Rightarrow> t = Tok INT_tok \<and> is_cls IdList l | _ \<Rightarrow> False)
       | IdList \<Rightarrow> (case nodes of i # _ \<Rightarrow> is_cls Id_cls i | [] \<Rightarrow> False)
       | Id_cls \<Rightarrow> (case nodes of [t, Str x] \<Rightarrow> t = Tok ID | _ \<Rightarrow> False)
       | If_cls \<Rightarrow> nodes \<noteq> [] \<and> last nodes = Tok ENDIF
       | While \<Rightarrow> nodes \<noteq> [] \<and> last nodes = Tok ENDWHILE
       | _ \<Rightarrow> True))"
| "well_formed _ = True"

lemma loop_evolves:
  assumes "for_nodes (\<lambda>node p. if C node then semantics node par sc p else Inr p) nodes p = Inr p'"
    and "\<And>n q q'. n \<in> set nodes \<Longrightarrow> C n \<Longrightarrow> semantics n par sc q = Inr q' \<Longrightarrow> evolves q q'"
  shows "evolves p p'"
proof (rule for_nodes_rel [OF assms(1)])
  fix n t t' assume "n \<in> set nodes" and "(if C n then semantics n par sc t else Inr t) = Inr t'"
  then show "evolves t t'" using assms(2) by (auto simp add: evolves_refl split: if_splits)
qed (auto intro: evolves_refl evolves_trans)

lemma block_evolves:
  assumes nodes: "nodes \<noteq> []" "last nodes = Tok endtok"
    and run: "for_nodes (\<lambda>node p.
             if \<not> is_Token node then semantics node par loc p
             else if node = Tok endtok then Inr (set_child scope None p)
             else Inr p) nodes (set_child scope (Some loc) p) = Inr p'"
    and ih: "\<And>n q q'. n \<in> set nodes \<Longrightarrow> \<not> is_Token n \<Longrightarrow> semantics n par loc q = Inr q' \<Longrightarrow> evolves q q'"
  shows "evolves p p'"
proof -
  let ?body = "\<lambda>node p.
             if \<not> is_Token node then semantics node par loc p
             else if node = Tok endtok then Inr (set_child scope None p)
             else Inr p"
  from nodes obtain ns where ns: "nodes = ns @ [Tok endtok]"
    by (metis append_butlast_last_id)
  from run obtain q where q: "for_nodes ?body ns (set_child scope (Some loc) p) = Inr q"
    and p': "p' = set_child scope None q"
    by (auto simp add: ns for_nodes_append and_then_Inr)
  have "evolves (set_child scope (Some loc) p) q"
  proof (rule for_nodes_rel [OF q])
    fix n t t' assume "n \<in> set ns" and "?body n t = Inr t'"
    then show "evolves t t'" using ih [of n t t'] ns
      by (auto simp add: evolves_refl evolves_reset split: if_splits)
  qed (auto intro: evolves_refl evolves_trans)
  then show ?thesis
    unfolding p' evolves_def set_child_def by (auto split: if_splits)
qed

lemma sem_evolves: "well_formed node \<Longrightarrow> semantics node parent s p = Inr p' \<Longrightarrow> evolves p p'"
proof (induction node parent s p arbitrary: p' rule: semantics.induct)
  case (1 nodes slot parent scope p)
  then show ?case by simp
next
  case (2 nodes slot parent scope p)
  from "2.prems" have run: "for_nodes (\<lambda>node p.
      if \<not> is_Token node then semantics node parent scope p else Inr p) nodes p = Inr p'"
    and wf: "list_all well_formed nodes" by simp_all
  show ?case by (rule loop_evolves [OF run]) (use "2.IH" wf in \<open>auto simp: list_all_iff\<close>)
next
  case (3 nodes slot parent scope p)
  from "3.prems" have run: "for_nodes (\<lambda>node p.
      if is_cls IdList node then semantics node T_declare scope p else Inr p) nodes p = Inr p'"
    and wf: "list_all well_formed nodes" by simp_all
  show ?case by (rule loop_evolves [OF run]) (use "3.IH" wf in \<open>auto simp: list_all_iff\<close>)
next
  case (4 nodes slot parent scope p)
  from "4.prems" have run: "for_nodes (\<lambda>node p.
      if \<not> is_Token node then semantics node parent scope p else Inr p) nodes p = Inr p'"
    and wf: "list_all well_formed nodes" by simp_all
  show ?case by (rule loop_evolves [OF run]) (use "4.IH" wf in \<open>auto simp: list_all_iff\<close>)
next
  case (5 nodes slot parent scope p)
  from "5.prems" have run: "for_nodes (\<lambda>node p.
        if \<not> is_Token node
        then (case node of Str var \<Rightarrow> Id_semantics_name var parent scope p | _ \<Rightarrow> Inl TypeError)
        else Inr p) nodes p = Inr p'" by simp
  show ?case
  proof (rule for_nodes_rel [OF run])
    fix n t t'
    assume "(if \<not> is_Token n
        then (case n of Str var \<Rightarrow> Id_semantics_name var parent scope t | _ \<Rightarrow> Inl TypeError)
        else Inr t) = Inr t'"
    then show "evolves t t'"
      by (auto simp add: evolves_refl dest: Id_semantics_name_evolves split: if_splits node.splits)
  qed (auto intro: evolves_refl evolves_trans)
next
  case (6 nodes slot parent scope p)
  from "6.prems" have run: "for_nodes (\<lambda>node p. semantics node parent scope p) nodes p = Inr p'"
    and wf: "list_all well_formed nodes" by simp_all
  show ?case
  proof (rule for_nodes_rel [OF run])
    fix n t t' assume "n \<in> set nodes" and "semantics n parent scope t = Inr t'"
    then show "evolves t t'" using "6.IH" wf by (auto simp: list_all_iff)
  qed (auto intro: evolves_refl evolves_trans)
next
  case (7 nodes slot parent scope p)
  from "7.prems" have run: "for_nodes (\<lambda>node p.
      if \<not> is_Token node then semantics node T_assign scope p else Inr p) nodes p = Inr p'"
    and wf: "list_all well_formed nodes" by simp_all
  show ?case by (rule loop_evolves [OF run]) (use "7.IH" wf in \<open>auto simp: list_all_iff\<close>)
next
  case (8 nodes slot parent scope p)
  from "8.prems"(1) have ne: "nodes \<noteq> []" and l: "last nodes = Tok ENDIF"
    and wf: "list_all well_formed nodes" by simp_all
  from "8.prems"(2) obtain loc where loc: "slot = Some loc" by (cases slot) simp_all
  from "8.prems"(2) have run: "for_nodes (\<lambda>node p.
             if \<not> is_Token node then semantics node parent loc p
             else if node = Tok ENDIF then Inr (set_child scope None p)
             else Inr p) nodes (set_child scope (Some loc) p) = Inr p'"
    by (simp add: loc)
  show ?case
    by (rule block_evolves [OF ne l run]) (use "8.IH" wf loc in \<open>auto simp: list_all_iff\<close>)
next
  case (9 nodes slot parent scope p)
  from "9.prems"(1) have ne: "nodes \<noteq> []" and l: "last nodes = Tok ENDWHILE"
    and wf: "list_all well_formed nodes" by simp_all
  from "9.prems"(2) obtain loc where loc: "slot = Some loc" by (cases slot) simp_all
  from "9.prems"(2) have run: "for_nodes (\<lambda>node p.
             if \<not> is_Token node then semantics node parent loc p
             else if node = Tok ENDWHILE then Inr (set_child scope None p)
             else Inr p) nodes (set_child scope (Some loc) p) = Inr p'"
    by (simp add: loc)
  show ?case
    by (rule block_evolves [OF ne l run]) (use "9.IH" wf loc in \<open>auto simp: list_all_iff\<close>)
next
  case (10 nodes slot parent scope p)
  from "10.prems" have run: "for_nodes (\<lambda>node p.
      if is_cls Id_cls node then semantics node T_assign scope p else Inr p) nodes p = Inr p'"
    and wf: "list_all well_formed nodes" by simp_all
  show ?case by (rule loop_evolves [OF run]) (use "10.IH" wf in \<open>auto simp: list_all_iff\<close>)
next
  case (11 nodes slot parent scope p)
  from "11.prems" have run: "for_nodes (\<lambda>node p.
      if \<not> is_Token node then semantics node T_call scope p else Inr p) nodes p = Inr p'"
    and wf: "list_all well_formed nodes" by simp_all
  show ?case by (rule loop_evolves [OF run]) (use "11.IH" wf in \<open>auto simp: list_all_iff\<close>)
next
  case (12 nodes slot parent scope p)
  from "12.prems" have run: "for_nodes (\<lambda>node p.
      if \<not> is_Token node then semantics node parent scope p else Inr p) nodes p = Inr p'"
    and wf: "list_all well_formed nodes" by simp_all
  show ?case by (rule loop_evolves [OF run]) (use "12.IH" wf in \<open>auto simp: list_all_iff\<close>)
next
  case (13 nodes slot parent scope p)
  from "13.prems" have run: "for_nodes (\<lambda>node p.
      if \<not> is_Token node then semantics node parent scope p else Inr p) nodes p = Inr p'"
    and wf: "list_all well_formed nodes" by simp_all
  show ?case by (rule loop_evolves [OF run]) (use "13.IH" wf in \<open>auto simp: list_all_iff\<close>)
next
  case (14 nodes slot parent scope p)
  from "14.prems" have run: "for_nodes (\<lambda>node p.
      if \<not> is_Token node then semantics node parent scope p else Inr p) nodes p = Inr p'"
    and wf: "list_all well_formed nodes" by simp_all
  show ?case by (rule loop_evolves [OF run]) (use "14.IH" wf in \<open>auto simp: list_all_iff\<close>)
next
  case (15 nodes slot parent scope p)
  from "15.prems" have run: "for_nodes (\<lambda>node p.
      if \<not> is_Token node then semantics node parent scope p else Inr p) nodes p = Inr p'"
    and wf: "list_all well_formed nodes" by simp_all
  show ?case by (rule loop_evolves [OF run]) (use "15.IH" wf in \<open>auto simp: list_all_iff\<close>)
next
  case (16 nodes slot parent scope p)
  from "16.prems" have run: "for_nodes (\<lambda>node p.
      if \<not> is_Token node then semantics node parent scope p else Inr p) nodes p = Inr p'"
    and wf: "list_all well_formed nodes" by simp_all
  show ?case by (rule loop_evolves [OF run]) (use "16.IH" wf in \<open>auto simp: list_all_iff\<close>)
next
  case (17 nodes slot parent scope p)
  then show ?case by (simp add: evolves_refl)
qed simp_all



text \<open>
  Parsing creates frames and links none: it keeps the root of the scope chain, and when
  no frame has a child before, none has one after.
\<close>

definition childless :: "parser \<Rightarrow> bool" where
  "childless p \<longleftrightarrow> (\<forall>a. child (frames p a) = None)"

definition step :: "parser \<Rightarrow> parser \<Rightarrow> bool" where
  "step p p' \<longleftrightarrow> global_scope p' = global_scope p \<and> (childless p \<longrightarrow> childless p')"

lemma step_refl: "step p p"
  by (simp add: step_def)

lemma step_trans: "step a b \<Longrightarrow> step b c \<Longrightarrow> step a c"
  by (simp add: step_def)

lemma step_next_token: "step p (next_token p)"
  by (simp add: step_def next_token_def childless_def)

lemma step_new_obj: "step p (snd (new_obj c p))"
  by (simp add: step_def new_obj_def new_scope_def childless_def scope_tree_init_def)

lemma new_obj_fst: "\<exists>sl. fst (new_obj c p) = Obj c [] sl"
  by (simp add: new_obj_def new_scope_def)

text \<open>\<open>post Q r\<close>: when the routine returns, what it returns satisfies \<open>Q\<close>.\<close>

definition post :: "('a \<Rightarrow> bool) \<Rightarrow> (error + 'a) option \<Rightarrow> bool" where
  "post Q r = (case r of Some (Inr x) \<Rightarrow> Q x | _ \<Rightarrow> True)"

lemma post_then_do:
  assumes "post Q1 m" and "\<And>x. Q1 x \<Longrightarrow> post Q (f x)"
  shows "post Q (then_do m f)"
proof (cases m)
  case None
  then show ?thesis by (simp add: post_def)
next
  case (Some y)
  then show ?thesis using assms by (cases y) (simp_all add: post_def)
qed

lemma post_returns: "Q x \<Longrightarrow> post Q (returns x)"
  by (simp add: post_def returns_def)

lemma post_exits: "post Q (exits e)"
  by (simp add: post_def exits_def)

lemma post_None: "post Q None"
  by (simp add: post_def)

lemma post_token_assert:
  assumes "token p = t \<Longrightarrow> post Q (f (ns @ [Tok t], next_token p))"
  shows "post Q (then_do (token_assert t ns p) f)"
  using assms
  by (auto simp add: token_assert_def token_validate_def returns_def exits_def post_def)

lemma post_token_assert0:
  assumes "token p = t \<Longrightarrow> Q (ns @ [Tok t], next_token p)"
  shows "post Q (token_assert t ns p)"
  using assms
  by (auto simp add: token_assert_def token_validate_def returns_def exits_def post_def)

lemma post_append_parse:
  assumes IH: "\<forall>c slot p. c \<noteq> Program \<longrightarrow>
        post (\<lambda>(t, p'). well_formed t \<and> is_cls c t \<and> step p p') (parse k (Obj c [] slot) p)"
    and c: "c \<noteq> Program"
    and f: "\<And>x p'. well_formed x \<Longrightarrow> is_cls c x \<Longrightarrow> step p p' \<Longrightarrow> post Q (f (ns @ [x], p'))"
  shows "post Q (then_do (append_parse (parse k) c ns p) f)"
proof -
  obtain x0 p1 where n: "new_obj c p = (x0, p1)" by (cases "new_obj c p")
  from n new_obj_fst [of c p] obtain sl where x0: "x0 = Obj c [] sl" by auto
  from n step_new_obj [of p c] have s1: "step p p1" by simp
  from IH c have ih: "post (\<lambda>(t, p'). well_formed t \<and> is_cls c t \<and> step p1 p') (parse k (Obj c [] sl) p1)"
    by blast
  show ?thesis
  proof (cases "parse k (Obj c [] sl) p1")
    case None
    then show ?thesis by (simp add: append_parse_def n x0 post_def)
  next
    case (Some y)
    show ?thesis
    proof (cases y)
      case (Inl e)
      with Some show ?thesis by (simp add: append_parse_def n x0 post_def)
    next
      case (Inr r)
      obtain x' p' where r: "r = (x', p')" by (cases r)
      from ih Some Inr r have "well_formed x'" "is_cls c x'" "step p1 p'" by (simp_all add: post_def)
      with s1 have "post Q (f (ns @ [x'], p'))" using f step_trans by blast
      with Some Inr r show ?thesis by (simp add: append_parse_def n x0 returns_def)
    qed
  qed
qed

lemma stmt_class_not_Program: "stmt_class t = Some c \<Longrightarrow> c \<noteq> Program"
  by (cases t) auto

lemma next_token_frames [simp]:
  "global_scope (next_token p) = global_scope p" "childless (next_token p) = childless p"
  by (simp_all add: next_token_def childless_def)

lemma then_do_if:
  "then_do (if c then a else b) f = (if c then then_do a f else then_do b f)"
  by simp

lemma then_do_returns: "then_do (returns x) f = f x"
  by (simp add: returns_def)

lemma then_do_assoc: "then_do (then_do m g) f = then_do m (\<lambda>x. then_do (g x) f)"
proof (cases m)
  case None
  then show ?thesis by simp
next
  case (Some y)
  then show ?thesis by (cases y) simp_all
qed

lemma parse_post:
  "(\<forall>c slot p. c \<noteq> Program \<longrightarrow>
        post (\<lambda>(t, p'). well_formed t \<and> is_cls c t \<and> step p p') (parse k (Obj c [] slot) p))
   \<and> (\<forall>nodes p. post (\<lambda>(ns, p'). (\<exists>xs. ns = nodes @ xs \<and> list_all well_formed xs) \<and> step p p')
          (expr_paren_parse k nodes p))
   \<and> (\<forall>nodes p. post (\<lambda>(ns, p'). (\<exists>xs. ns = nodes @ xs \<and> list_all well_formed xs) \<and> step p p')
          (cond_paren_parse k nodes p))"
proof (induction k)
  case 0
  show ?case by (simp add: post_None)
next
  case (Suc k)
  note ap = post_append_parse [OF Suc.IH [THEN conjunct1]]
  have IH2: "post Q (then_do (expr_paren_parse k nodes p) f)"
    if "\<And>xs p'. list_all well_formed xs \<Longrightarrow> step p p' \<Longrightarrow> post Q (f (nodes @ xs, p'))" for nodes p Q f
  proof (rule post_then_do)
    show "post (\<lambda>(ns, p'). (\<exists>xs. ns = nodes @ xs \<and> list_all well_formed xs) \<and> step p p')
          (expr_paren_parse k nodes p)" using Suc.IH by blast
  qed (use that in auto)
  have IH3: "post Q (then_do (cond_paren_parse k nodes p) f)"
    if "\<And>xs p'. list_all well_formed xs \<Longrightarrow> step p p' \<Longrightarrow> post Q (f (nodes @ xs, p'))" for nodes p Q f
  proof (rule post_then_do)
    show "post (\<lambda>(ns, p'). (\<exists>xs. ns = nodes @ xs \<and> list_all well_formed xs) \<and> step p p')
          (cond_paren_parse k nodes p)" using Suc.IH by blast
  qed (use that in auto)
  have P: "post (\<lambda>(t, p'). well_formed t \<and> is_cls c t \<and> step p p') (parse (Suc k) (Obj c [] slot) p)"
    if c: "c \<noteq> Program" for c slot p
  proof (cases c)
    case Program
    with c show ?thesis by simp
  next
    case DeclSeq
    show ?thesis unfolding DeclSeq
      by (auto intro!: ap post_token_assert post_returns simp add: step_def)
  next
    case Decl
    show ?thesis unfolding Decl
      by (auto intro!: ap post_token_assert post_returns simp add: step_def)
  next
    case IdList
    show ?thesis unfolding IdList
      by (auto intro!: ap post_token_assert post_returns simp add: step_def)
  next
    case Id_cls
    show ?thesis unfolding Id_cls
      by (auto simp add: token_validate_def post_exits intro!: post_returns simp add: step_def)
  next
    case StmtSeq
    show ?thesis unfolding StmtSeq
      by (auto intro!: ap post_token_assert post_returns post_exits
          dest: stmt_class_not_Program simp add: step_def split: option.splits)
  next
    case Assign
    show ?thesis unfolding Assign
      by (auto intro!: ap post_token_assert post_returns simp add: step_def)
  next
    case If_cls
    show ?thesis unfolding If_cls
      by (auto intro!: ap post_token_assert post_returns
          simp add: step_def then_do_if then_do_returns then_do_assoc)
  next
    case While
    show ?thesis unfolding While
      by (auto intro!: ap post_token_assert post_returns simp add: step_def)
  next
    case Input
    show ?thesis unfolding Input
      by (auto intro!: ap post_token_assert post_returns simp add: step_def)
  next
    case Output
    show ?thesis unfolding Output
      by (auto intro!: ap post_token_assert post_returns simp add: step_def)
  next
    case Expr
    show ?thesis unfolding Expr
      by (auto intro!: ap post_token_assert post_returns simp add: step_def)
  next
    case Term
    show ?thesis unfolding Term
      by (auto intro!: ap post_token_assert post_returns simp add: step_def)
  next
    case Factor
    show ?thesis unfolding Factor
      by (auto intro!: ap IH2 post_token_assert post_returns post_exits simp add: step_def)
  next
    case Cond
    show ?thesis unfolding Cond
      by (auto intro!: ap IH3 post_token_assert post_returns simp add: step_def)
  next
    case Cmpr
    show ?thesis unfolding Cmpr
      by (auto intro!: ap post_token_assert post_returns
          simp add: step_def then_do_if then_do_returns then_do_assoc)
  next
    case Const
    show ?thesis unfolding Const
      by (auto simp add: token_validate_def post_exits intro!: post_returns simp add: step_def)
  qed
  have E: "post (\<lambda>(ns, p'). (\<exists>xs. ns = nodes @ xs \<and> list_all well_formed xs) \<and> step p p')
          (expr_paren_parse (Suc k) nodes p)" for nodes p
    by (auto intro!: ap IH2 post_token_assert post_token_assert0 post_returns
        simp add: step_def then_do_if then_do_returns then_do_assoc)
  have C: "post (\<lambda>(ns, p'). (\<exists>xs. ns = nodes @ xs \<and> list_all well_formed xs) \<and> step p p')
          (cond_paren_parse (Suc k) nodes p)" for nodes p
    by (auto intro!: ap IH3 post_token_assert post_token_assert0 post_returns
        simp add: step_def then_do_if then_do_returns then_do_assoc)
  from P E C show ?case by blast
qed

lemma parse_Program_post:
  "post (\<lambda>(t, p'). \<exists>D S. t = Obj Program [Tok PROGRAM, D, Tok BEGIN, S, Tok END] slot
             \<and> well_formed D \<and> is_cls DeclSeq D \<and> well_formed S \<and> is_cls StmtSeq S \<and> step p p')
     (parse k (Obj Program [] slot) p)"
proof (cases k)
  case 0
  then show ?thesis by (simp add: post_None)
next
  case (Suc j)
  note ap = post_append_parse [OF parse_post [of j, THEN conjunct1]]
  show ?thesis unfolding Suc
    by (auto intro!: ap post_token_assert post_returns post_exits simp add: step_def)
qed


lemma is_cls_D: "is_cls c n \<Longrightarrow> \<exists>ns sl. n = Obj c ns sl"
  by (cases n) auto

lemma first_decl_shape:
  assumes "well_formed D" and "is_cls DeclSeq D"
  shows "\<exists>x s1 r1 s2 r2 s3 r3 s4.
           D = Obj DeclSeq
                 (Obj Decl (Tok INT_tok # Obj IdList (Obj Id_cls [Tok ID, Str x] s1 # r1) s2 # r2) s3
                  # r3) s4
           \<and> list_all well_formed r1 \<and> list_all well_formed r2 \<and> list_all well_formed r3"
proof -
  from assms(2) obtain ns s4 where D: "D = Obj DeclSeq ns s4" by (auto dest: is_cls_D)
  from assms(1) D obtain d r3 where ns: "ns = d # r3" and d: "is_cls Decl d" "well_formed d"
    and r3: "list_all well_formed r3"
    by (cases ns) auto
  from d(1) obtain ds s3 where dd: "d = Obj Decl ds s3" by (auto dest: is_cls_D)
  from d(2) dd obtain l r2 where ds: "ds = Tok INT_tok # l # r2" and l: "is_cls IdList l" "well_formed l"
    and r2: "list_all well_formed r2"
    by (cases ds; cases "tl ds") auto
  from l(1) obtain ls s2 where ll: "l = Obj IdList ls s2" by (auto dest: is_cls_D)
  from l(2) ll obtain i r1 where ls: "ls = i # r1" and i: "is_cls Id_cls i" "well_formed i"
    and r1: "list_all well_formed r1"
    by (cases ls) auto
  from i(1) obtain js s1 where ii: "i = Obj Id_cls js s1" by (auto dest: is_cls_D)
  from i(2) ii obtain x where js: "js = [Tok ID, Str x]"
    by (auto split: list.splits node.splits)
  show ?thesis using D ns dd ds ll ls ii js r1 r2 r3 by blast
qed

lemma declare_again:
  assumes "dfs_scope (frames p) (global_scope p) x = Some r"
    and "dict (frames p g) x \<noteq> None"
  shows "Id_semantics_name x T_declare g p = Inl (DeclaredTwice x)"
  using assms by (simp add: Id_semantics_name_def)

lemma declare_first:
  assumes "Id_semantics_name x T_declare g p = Inr q"
  shows "q = set_item g x (BoolV False) p"
  using assms by (auto simp add: Id_semantics_name_def split: option.splits if_splits)

lemma rest_evolves:
  assumes "for_nodes (\<lambda>node p. if C node then semantics node par sc p else Inr p) ns p = Inr p'"
    and "list_all well_formed ns"
  shows "evolves p p'"
  by (rule loop_evolves [OF assms(1)]) (use assms(2) sem_evolves in \<open>auto simp: list_all_iff\<close>)

lemma DeclSeq_first_run:
  assumes D: "D = Obj DeclSeq
                 (Obj Decl (Tok INT_tok # Obj IdList (Obj Id_cls [Tok ID, Str x] s1 # r1) s2 # r2) s3
                  # r3) s4"
    and wf: "list_all well_formed r1" "list_all well_formed r2" "list_all well_formed r3"
    and run: "semantics D par g p = Inr q"
  shows "evolves (set_item g x (BoolV False) p) q"
proof -
  let ?i = "Obj Id_cls [Tok ID, Str x] s1"
  let ?l = "Obj IdList (?i # r1) s2"
  let ?d = "Obj Decl (Tok INT_tok # ?l # r2) s3"
  from run obtain qa where da: "semantics ?d par g p = Inr qa"
    and ra: "for_nodes (\<lambda>node p. if \<not> is_Token node then semantics node par g p else Inr p) r3 qa
              = Inr q"
    unfolding D by (auto simp add: and_then_Inr)
  from da obtain qb where lb: "semantics ?l T_declare g p = Inr qb"
    and rb: "for_nodes (\<lambda>node p. if is_cls IdList node then semantics node T_declare g p else Inr p)
               r2 qb = Inr qa"
    by (auto simp add: and_then_Inr)
  from lb obtain qc where ic: "semantics ?i T_declare g p = Inr qc"
    and rc: "for_nodes (\<lambda>node p. if \<not> is_Token node then semantics node T_declare g p else Inr p)
               r1 qc = Inr qb"
    by (auto simp add: and_then_Inr)
  from ic have "Id_semantics_name x T_declare g p = Inr qc"
    by (auto simp add: and_then_Inr)
  then have qc: "qc = set_item g x (BoolV False) p" by (rule declare_first)
  have "evolves qc qb" using rc wf(1) by (rule rest_evolves)
  moreover have "evolves qb qa" using rb wf(2) by (rule rest_evolves)
  moreover have "evolves qa q" using ra wf(3) by (rule rest_evolves)
  ultimately show ?thesis unfolding qc by (blast intro: evolves_trans)
qed

lemma DeclSeq_second_run:
  assumes D: "D = Obj DeclSeq
                 (Obj Decl (Tok INT_tok # Obj IdList (Obj Id_cls [Tok ID, Str x] s1 # r1) s2 # r2) s3
                  # r3) s4"
    and "Id_semantics_name x T_declare g p = Inl e"
  shows "semantics D par g p = Inl e"
  unfolding D using assms(2) by simp

lemma Parser_init_facts:
  assumes "Parser_init f = (tree0, p0)"
  shows "tree0 = Obj Program [] (Some 0)" "global_scope p0 = 1" "childless p0"
  using assms
  by (auto simp add: Parser_init_def new_obj_def new_scope_def childless_def scope_tree_init_def)


text \<open>\<^verbatim>\<open>program int x; begin x = 1; end\<close>\<close>

definition declare_assign_program :: "lexeme list" where
  "declare_assign_program =
     [Sym PROGRAM, Sym INT_tok, Name ''x'', Sym SEMICOLON, Sym BEGIN,
      Name ''x'', Sym ASSIGN, Number 1, Sym SEMICOLON, Sym END]"

text \<open>
  C4, as stated: when the checking pass succeeds on a parsed tree, it succeeds again on
  the same tree. On the code the frames that the first pass fills (the global scope of
  the parser, and the frames held by the nodes) are never reset, so for the program
  above, after \<^verbatim>\<open>build_tree\<close> has parsed and checked it, a second call of
  \<^verbatim>\<open>Program.semantics\<close> stops at the declaration of \<open>x\<close>.
\<close>

theorem second_check_counterexample:
  "(case Parser_init declare_assign_program of (tree0, p0) \<Rightarrow>
      (case build_tree 20 tree0 p0 of
         Some (Inr (tree, p)) \<Rightarrow>
           semantics tree T_None (global_scope p) p = Inl (DeclaredTwice ''x'')
       | _ \<Rightarrow> False))"
  by (simp add: declare_assign_program_def run_defs)

text \<open>
  The first identifier of the first declaration of a program, read off its tree: the
  declaration sequence is \<^verbatim>\<open>nodes[1]\<close> of \<^verbatim>\<open>Program\<close>, its first declaration
  \<^verbatim>\<open>nodes[0]\<close>, the identifier list \<^verbatim>\<open>nodes[1]\<close> of the declaration, its first
  identifier \<^verbatim>\<open>nodes[0]\<close>, and the name \<^verbatim>\<open>nodes[1]\<close> of the identifier.
\<close>

fun nodes_of :: "node \<Rightarrow> node list" where
  "nodes_of (Obj c nodes slot) = nodes"
| "nodes_of _ = []"

definition first_declared :: "node \<Rightarrow> string option" where
  "first_declared tree =
     (case nodes_of tree of
        _ # declseq # _ \<Rightarrow>
          (case nodes_of declseq of
             decl # _ \<Rightarrow>
               (case nodes_of decl of
                  _ # idlist # _ \<Rightarrow>
                    (case nodes_of idlist of
                       ident # _ \<Rightarrow>
                         (case nodes_of ident of [_, Str x] \<Rightarrow> Some x | _ \<Rightarrow> None)
                     | _ \<Rightarrow> None)
                | _ \<Rightarrow> None)
           | _ \<Rightarrow> None)
      | _ \<Rightarrow> None)"

text \<open>
  C4, amended. For every program that \<^verbatim>\<open>build_tree\<close> parses and checks without error,
  running \<^verbatim>\<open>Program.semantics\<close> once more on the same parser and tree does not succeed:
  it aborts with "declared twice" at the first identifier \<open>x\<close> of the first declaration
  of the tree, which the first pass has left in the global frame.
\<close>

theorem second_check_aborts:
  assumes init: "Parser_init f = (tree0, p0)"
    and build: "build_tree k tree0 p0 = Some (Inr (tree, p))"
  shows "\<exists>x. first_declared tree = Some x
             \<and> semantics tree T_None (global_scope p) p = Inl (DeclaredTwice x)"
proof -
  note i = Parser_init_facts [OF init]
  from build obtain p1 where prs: "parse k tree0 p0 = Some (Inr (tree, p1))"
    and sem: "semantics tree T_None (global_scope p1) p1 = Inr p"
    by (auto simp add: build_tree_def then_do_Inr certainly_def returns_def)
  from parse_Program_post [of "Some 0" p0 k] prs i(1)
  obtain D S where tree: "tree = Obj Program [Tok PROGRAM, D, Tok BEGIN, S, Tok END] (Some 0)"
    and D: "well_formed D" "is_cls DeclSeq D" and S: "well_formed S" "is_cls StmtSeq S" and st: "step p0 p1"
    by (auto simp add: post_def)
  from st i have g1: "global_scope p1 = 1" and c1: "childless p1" by (simp_all add: step_def)
  from first_decl_shape [OF D] obtain x s1 r1 s2 r2 s3 r3 s4 where
    Dshape: "D = Obj DeclSeq
                 (Obj Decl (Tok INT_tok # Obj IdList (Obj Id_cls [Tok ID, Str x] s1 # r1) s2 # r2) s3
                  # r3) s4"
    and wf: "list_all well_formed r1" "list_all well_formed r2" "list_all well_formed r3" by blast
  from S(2) obtain ss sl where Sshape: "S = Obj StmtSeq ss sl" by (auto dest: is_cls_D)
  have nt: "\<not> is_Token D" "D \<noteq> Tok BEGIN" "\<not> is_Token S" "S \<noteq> Tok BEGIN"
    by (simp_all add: Dshape Sshape)
  from sem obtain q1 where d1: "semantics D T_None 1 p1 = Inr q1"
    and s3: "semantics S T_None 0 (set_child (global_scope q1) (Some 0) q1) = Inr p"
    unfolding tree using nt by (auto simp add: and_then_Inr g1)
  let ?q0 = "set_item 1 x (BoolV False) p1"
  have e1: "evolves ?q0 q1" using Dshape wf d1 by (rule DeclSeq_first_run)
  have gq1: "global_scope q1 = 1" using evolves_global [OF e1] by (simp add: set_item_def g1)
  let ?q2 = "set_child 1 (Some 0) q1"
  from s3 gq1 have "semantics S T_None 0 ?q2 = Inr p" by simp
  with S(1) have e3: "evolves ?q2 p" by (rule sem_evolves)
  have gp: "global_scope p = 1" using evolves_global [OF e3] gq1 by (simp add: set_child_def)
  have "dict (frames ?q0 1) x \<noteq> None" by (simp add: set_item_def)
  then have "dict (frames q1 1) x \<noteq> None" by (rule evolves_dict [OF e1])
  then have "dict (frames ?q2 1) x \<noteq> None" by (simp add: set_child_def)
  then have dx: "dict (frames p 1) x \<noteq> None" by (rule evolves_dict [OF e3])
  have cq0: "child (frames ?q0 a) = None" for a using c1 by (simp add: set_item_def childless_def)
  have cq1: "child (frames q1 a) = None" for a using evolves_child [OF e1, of a] cq0 [of a] by auto
  have "child (frames ?q2 0) = None" using cq1 [of 0] by (simp add: set_child_def)
  then have c0: "child (frames p 0) = None" using evolves_child [OF e3, of 0] by auto
  have "child (frames ?q2 1) = Some 0" by (simp add: set_child_def)
  then have c1': "child (frames p 1) = Some 0 \<or> child (frames p 1) = None"
    using evolves_child [OF e3, of 1] by auto
  have "\<exists>r. dfs_scope (frames p) 1 x = Some r"
    using c0 c1' by (auto simp add: dfs_scope_leaf dfs_scope_step)
  then obtain r where "dfs_scope (frames p) (global_scope p) x = Some r" using gp by auto
  then have "Id_semantics_name x T_declare 1 p = Inl (DeclaredTwice x)"
    using dx by (rule declare_again)
  with Dshape have "semantics D T_None 1 p = Inl (DeclaredTwice x)" by (rule DeclSeq_second_run)
  then have "semantics tree T_None (global_scope p) p = Inl (DeclaredTwice x)"
    unfolding tree using nt by (simp add: gp)
  moreover have "first_declared tree = Some x"
    unfolding tree Dshape by (simp add: first_declared_def)
  ultimately show ?thesis by blast
qed

text \<open>
  \<^verbatim>\<open>program int x, y; begin x = 1; if x < 2 then int z; z = x; endif\<close>
  \<^verbatim>\<open>while x < 3 begin x = x + 1; endwhile end\<close>
\<close>

definition nested_blocks_program :: "lexeme list" where
  "nested_blocks_program =
     [Sym PROGRAM, Sym INT_tok, Name ''x'', Sym COMMA, Name ''y'', Sym SEMICOLON, Sym BEGIN,
      Name ''x'', Sym ASSIGN, Number 1, Sym SEMICOLON,
      Sym IF, Name ''x'', Sym LESS, Number 2, Sym THEN,
        Sym INT_tok, Name ''z'', Sym SEMICOLON,
        Name ''z'', Sym ASSIGN, Name ''x'', Sym SEMICOLON,
      Sym ENDIF,
      Sym WHILE, Name ''x'', Sym LESS, Number 3, Sym BEGIN,
        Name ''x'', Sym ASSIGN, Name ''x'', Sym ADD, Number 1, Sym SEMICOLON,
      Sym ENDWHILE, Sym END]"

theorem second_check_aborts_witness:
  "succeeds (case Parser_init nested_blocks_program of (tree0, p0) \<Rightarrow> build_tree 20 tree0 p0)
   \<and> (case Parser_init nested_blocks_program of (tree0, p0) \<Rightarrow>
        (case build_tree 20 tree0 p0 of
           Some (Inr (tree, p)) \<Rightarrow>
             first_declared tree = Some ''x''
             \<and> semantics tree T_None (global_scope p) p = Inl (DeclaredTwice ''x'')
         | _ \<Rightarrow> False))"
proof -
  obtain tree0 p0 where i: "Parser_init nested_blocks_program = (tree0, p0)"
    by (cases "Parser_init nested_blocks_program")
  have s0: "succeeds (case Parser_init nested_blocks_program of (tree0, p0) \<Rightarrow>
      build_tree 20 tree0 p0)"
    by (simp add: nested_blocks_program_def run_defs)
  have f0: "(case Parser_init nested_blocks_program of (tree0, p0) \<Rightarrow>
      map_option (map_sum id (\<lambda>(tree, p). first_declared tree)) (build_tree 20 tree0 p0))
      = Some (Inr (Some ''x''))"
    by (simp add: nested_blocks_program_def first_declared_def run_defs)
  from s0 i have "succeeds (build_tree 20 tree0 p0)" by simp
  then obtain tree p where b: "build_tree 20 tree0 p0 = Some (Inr (tree, p))"
    by (auto simp add: succeeds_def split: option.splits sum.splits)
  from f0 i b have fd: "first_declared tree = Some ''x''" by simp
  from second_check_aborts [OF i b] obtain x where
    x: "first_declared tree = Some x"
    and ab: "semantics tree T_None (global_scope p) p = Inl (DeclaredTwice x)" by blast
  from x fd have "x = ''x''" by simp
  with ab fd s0 i b show ?thesis by simp
qed

end
